theory Spec2Isabelle
  imports Complex_Main "HOL-Library.Multiset"
begin

section \<open>Data model\<close>

text \<open>
  The analysis engine of \<^verbatim>\<open>src/app/api/analyze/route.ts\<close> works on arrays of
  earthquake event objects. JavaScript compares objects by reference
  (\<^verbatim>\<open>visited.has(point)\<close>, \<^verbatim>\<open>aftershocks.includes(event)\<close>,
  \<^verbatim>\<open>event !== mainshock\<close>), so an event object is a reference into an object
  store and an array is a list of references. JavaScript numbers are modelled as real
  numbers (the time stamp, epoch milliseconds, as an integer): rounding and overflow of
  IEEE doubles are left out. Where a division can have a zero divisor the model says so
  explicitly (\<open>js_div\<close> below).
\<close>

type_synonym ref = nat

record event =
  time :: int
  latitude :: real
  longitude :: real
  depth :: real
  magnitude :: real
  formattedTime :: string

type_synonym objects = "ref \<Rightarrow> event"

text \<open>
  The store: event objects, arrays of references, and the next free address. Allocation
  (\<^verbatim>\<open>[...data]\<close>, \<^verbatim>\<open>{ ...points[randomIndex] }\<close>) takes the address
  \<open>nxt\<close> and advances it.
\<close>

record store =
  objs :: objects
  arrs :: "ref \<Rightarrow> ref list"
  nxt :: ref

text \<open>An \<^verbatim>\<open>Error\<close> carries its message; a \<^verbatim>\<open>TypeError\<close> is raised by
  the engine when a property of \<^verbatim>\<open>undefined\<close> is read.\<close>

datatype error = Error string | TypeError

fun message :: "error \<Rightarrow> string" where
  "message (Error m) = m"
| "message TypeError = ''Cannot read properties of undefined''"

text \<open>A number that may be \<^verbatim>\<open>Number.POSITIVE_INFINITY\<close>.\<close>

datatype ext = Fin real | PosInf

fun less_ext :: "real \<Rightarrow> ext \<Rightarrow> bool" where
  "less_ext x PosInf = True"
| "less_ext x (Fin y) = (x < y)"

text \<open>
  A division whose divisor may be zero: JavaScript yields \<^verbatim>\<open>NaN\<close> (\<open>0 / 0\<close>) or
  an infinity there, which is \<open>None\<close> here; \<open>Some\<close> is a finite number. A value that
  is not finite stays so under \<open>+\<close>, \<open>-\<close>, \<open>*\<close> and \<^verbatim>\<open>Math.sqrt\<close>, which the
  lifted operations below follow.
\<close>

type_synonym num = "real option"

definition js_div :: "real \<Rightarrow> real \<Rightarrow> num" where
  "js_div a b = (if b = 0 then None else Some (a / b))"

definition num_sub :: "num \<Rightarrow> num \<Rightarrow> num" where
  "num_sub a b = (case (a, b) of (Some x, Some y) \<Rightarrow> Some (x - y) | _ \<Rightarrow> None)"

definition num_dist :: "num \<Rightarrow> num \<Rightarrow> num" where
  "num_dist latDiff lngDiff =
     (case (latDiff, lngDiff) of
        (Some x, Some y) \<Rightarrow> Some (sqrt (x * x + y * y))
      | _ \<Rightarrow> None)"

section \<open>Density-based clustering (DBSCAN)\<close>

text \<open>Lines 718-727 (and again 981-990): Euclidean distance in degree space and the
  eps-neighbourhood by linear scan.\<close>

definition distance :: "objects \<Rightarrow> ref \<Rightarrow> ref \<Rightarrow> real" where
  "distance h p1 p2 =
     (let latDiff = latitude (h p1) - latitude (h p2);
          lngDiff = longitude (h p1) - longitude (h p2)
      in sqrt (latDiff * latDiff + lngDiff * lngDiff))"

definition getNeighbors :: "objects \<Rightarrow> real \<Rightarrow> ref \<Rightarrow> ref list \<Rightarrow> ref list" where
  "getNeighbors h eps point points = filter (\<lambda>p. distance h point p \<le> eps) points"

text \<open>
  Lines 751-764: the \<^verbatim>\<open>while (queue.length > 0)\<close> loop. \<^verbatim>\<open>queue.shift()\<close>
  takes the head; a visited element is skipped; otherwise it is marked visited, its
  unvisited neighbours are appended to the queue when it has at least \<open>minPts\<close>
  neighbours, and it joins the cluster.
\<close>

function expand ::
  "objects \<Rightarrow> real \<Rightarrow> nat \<Rightarrow> ref list \<Rightarrow> ref list \<Rightarrow> ref set \<Rightarrow> ref list \<Rightarrow> ref set \<times> ref list"
where
  "expand h eps minPts points [] visited cluster = (visited, cluster)"
| "expand h eps minPts points (current # queue) visited cluster =
     (if current \<in> visited then expand h eps minPts points queue visited cluster
      else
        expand h eps minPts points
          (if minPts \<le> length (getNeighbors h eps current points)
           then queue @ filter (\<lambda>n. n \<notin> insert current visited) (getNeighbors h eps current points)
           else queue)
          (insert current visited)
          (cluster @ [current]))"
  by pat_completeness auto
termination
proof (relation "measures
    [\<lambda>(h, eps, minPts, points, queue, visited, cluster). card ((set points \<union> set queue) - visited),
     \<lambda>(h, eps, minPts, points, queue, visited, cluster). length queue]")
  show "wf (measures
    [\<lambda>(h, eps, minPts, points, queue, visited, cluster). card ((set points \<union> set queue) - visited),
     \<lambda>(h, eps, minPts, points, queue, visited, cluster). length queue])"
    by simp
next
  fix h :: objects and eps :: real and minPts :: nat and points queue :: "ref list"
    and current :: ref and visited :: "ref set" and cluster :: "ref list"
  assume "current \<in> visited"
  have "(set points \<union> set queue) - visited = (set points \<union> set (current # queue)) - visited"
    using \<open>current \<in> visited\<close> by auto
  then show "((h, eps, minPts, points, queue, visited, cluster),
              (h, eps, minPts, points, current # queue, visited, cluster))
      \<in> measures
    [\<lambda>(h, eps, minPts, points, queue, visited, cluster). card ((set points \<union> set queue) - visited),
     \<lambda>(h, eps, minPts, points, queue, visited, cluster). length queue]"
    by simp
next
  fix h :: objects and eps :: real and minPts :: nat and points queue :: "ref list"
    and current :: ref and visited :: "ref set" and cluster :: "ref list"
  assume fresh: "current \<notin> visited"
  let ?q = "if minPts \<le> length (getNeighbors h eps current points)
            then queue @ filter (\<lambda>n. n \<notin> insert current visited) (getNeighbors h eps current points)
            else queue"
  have sub: "set ?q \<subseteq> set points \<union> set queue"
    by (auto simp: getNeighbors_def)
  have "(set points \<union> set ?q) - insert current visited
        \<subset> (set points \<union> set (current # queue)) - visited"
    using sub fresh by auto
  then have "card ((set points \<union> set ?q) - insert current visited)
        < card ((set points \<union> set (current # queue)) - visited)"
    by (intro psubset_card_mono) auto
  then show "((h, eps, minPts, points, ?q, insert current visited, cluster @ [current]),
              (h, eps, minPts, points, current # queue, visited, cluster))
      \<in> measures
    [\<lambda>(h, eps, minPts, points, queue, visited, cluster). card ((set points \<union> set queue) - visited),
     \<lambda>(h, eps, minPts, points, queue, visited, cluster). length queue]"
    by simp
qed

text \<open>
  Lines 735-765: the \<^verbatim>\<open>points.forEach\<close> loop, with the state \<open>(visited, clusters,
  noise)\<close>. \<open>rest\<close> is what the loop has still to visit; \<open>points\<close> is the whole
  array, which the neighbourhood scans read.
\<close>

fun dbscan_loop ::
  "objects \<Rightarrow> real \<Rightarrow> nat \<Rightarrow> ref list \<Rightarrow> ref list \<Rightarrow>
   ref set \<times> ref list list \<times> ref list \<Rightarrow> ref set \<times> ref list list \<times> ref list"
where
  "dbscan_loop h eps minPts points [] st = st"
| "dbscan_loop h eps minPts points (point # rest) (visited, clusters, noise) =
     (if point \<in> visited then dbscan_loop h eps minPts points rest (visited, clusters, noise)
      else if length (getNeighbors h eps point points) < minPts
      then dbscan_loop h eps minPts points rest (insert point visited, clusters, noise @ [point])
      else
        (case expand h eps minPts points (getNeighbors h eps point points)
                (insert point visited) [point] of
           (visited', cluster) \<Rightarrow>
             dbscan_loop h eps minPts points rest (visited', clusters @ [cluster], noise)))"

definition dbscan :: "objects \<Rightarrow> ref list \<Rightarrow> real \<Rightarrow> nat \<Rightarrow> ref list list \<times> ref list" where
  "dbscan h points eps minPts =
     (case dbscan_loop h eps minPts points points ({}, [], []) of
        (visited, clusters, noise) \<Rightarrow> (clusters, noise))"

section \<open>Declustering strategies\<close>

text \<open>
  \<^verbatim>\<open>array.reduce((max, event) => (event.magnitude > max.magnitude ? event : max),
  array[0])\<close> (lines 1032 and 1181): the first event of the largest magnitude. The
  source applies it to arrays that hold at least one element.
\<close>

fun largest :: "objects \<Rightarrow> ref list \<Rightarrow> ref option" where
  "largest h [] = None"
| "largest h (first # rest) =
     Some (foldl (\<lambda>max event. if magnitude (h event) > magnitude (h max) then event else max)
             first (first # rest))"

text \<open>
  Lines 1031-1036: per cluster, the largest event is pushed to \<open>mainshocks\<close> and the
  other members to \<open>aftershocks\<close>. A cluster always holds its seed (line 1010), so the
  first case cannot occur.
\<close>

fun split_clusters ::
  "objects \<Rightarrow> ref list list \<Rightarrow> ref list \<times> ref list \<Rightarrow> ref list \<times> ref list"
where
  "split_clusters h [] st = st"
| "split_clusters h (cluster # clusters) (mainshocks, aftershocks) =
     (case largest h cluster of
        None \<Rightarrow> split_clusters h clusters (mainshocks, aftershocks)
      | Some mainshock \<Rightarrow>
          split_clusters h clusters
            (mainshocks @ [mainshock],
             aftershocks @ filter (\<lambda>event. event \<noteq> mainshock) cluster))"

text \<open>
  The strategies \<^verbatim>\<open>nnd\<close>, \<^verbatim>\<open>gruenthal\<close> and \<^verbatim>\<open>reasenberg\<close> (lines
  1042-1068, 1074-1100, 1106-1140) are the same two nested \<^verbatim>\<open>forEach\<close> loops and
  differ in the test that admits a later event as an aftershock. \<open>scan_later\<close> is the
  inner loop over \<^verbatim>\<open>events.slice(i + 1)\<close>, \<open>window_decluster\<close> the outer loop; the
  admission tests follow.
\<close>

fun scan_later :: "(ref \<Rightarrow> bool) \<Rightarrow> ref list \<Rightarrow> ref list \<Rightarrow> ref list" where
  "scan_later admits [] aftershocks = aftershocks"
| "scan_later admits (laterEvent # rest) aftershocks =
     scan_later admits rest
       (if laterEvent \<in> set aftershocks then aftershocks
        else if admits laterEvent then aftershocks @ [laterEvent]
        else aftershocks)"

fun window_decluster ::
  "(ref \<Rightarrow> ref \<Rightarrow> bool) \<Rightarrow> ref list \<Rightarrow> ref list \<times> ref list \<Rightarrow> ref list \<times> ref list"
where
  "window_decluster admits [] st = st"
| "window_decluster admits (event # later) (mainshocks, aftershocks) =
     (if event \<in> set aftershocks
      then window_decluster admits later (mainshocks, aftershocks)
      else window_decluster admits later
             (mainshocks @ [event], scan_later (admits event) later aftershocks))"

text \<open>\<^verbatim>\<open>Math.pow(10, x)\<close> is \<open>10 powr x\<close>.\<close>

definition nnd_admits :: "objects \<Rightarrow> ref \<Rightarrow> ref \<Rightarrow> bool" where
  "nnd_admits h event laterEvent =
     (let timeWindow = 10 powr (magnitude (h event) - 5.5) * 24 * 60 * 60 * 1000;
          spaceWindow = 10 powr (0.1 * magnitude (h event) - 0.5);
          timeDiff = real_of_int (time (h laterEvent) - time (h event))
      in if timeDiff > timeWindow then False
         else distance h laterEvent event \<le> spaceWindow)"

definition gruenthal_admits :: "objects \<Rightarrow> ref \<Rightarrow> ref \<Rightarrow> bool" where
  "gruenthal_admits h event laterEvent =
     (let timeWindow = 10 powr (2.8 + 0.024 * magnitude (h event)) * 24 * 60 * 60 * 1000;
          spaceWindow = 10 powr (-1.77 + 0.38 * magnitude (h event));
          timeDiff = real_of_int (time (h laterEvent) - time (h event))
      in if timeDiff > timeWindow then False
         else distance h laterEvent event \<le> spaceWindow)"

text \<open>
  Lines 1113-1138. The exponent \<open>p\<close> is the constant \<open>1.0\<close> and
  \<^verbatim>\<open>Math.pow(x, 1)\<close> is \<open>x\<close>, so \<open>rate\<close> is \<open>1 / (timeDiff + c)\<close>; for a zero
  divisor JavaScript gives \<^verbatim>\<open>Infinity\<close>, which exceeds \<open>0.1\<close>.
\<close>

definition reasenberg_admits :: "objects \<Rightarrow> ref \<Rightarrow> ref \<Rightarrow> bool" where
  "reasenberg_admits h event laterEvent =
     (let c = 0.05;
          spaceWindow = 10 powr (-1.85 + 0.4 * magnitude (h event));
          timeDiff = real_of_int (time (h laterEvent) - time (h event)) / (24 * 60 * 60 * 1000)
      in if distance h laterEvent event \<le> spaceWindow
         then (if timeDiff + c = 0 then True else 1 / (timeDiff + c) > 0.1)
         else False)"

text \<open>
  Lines 969-1148: \<^verbatim>\<open>decluster(events, algorithm)\<close>. The \<^verbatim>\<open>dbscan\<close> case repeats
  the clustering loop of lines 735-765 with \<open>eps = 0.5\<close> and \<open>minPts = 3\<close>, pushing a
  noise event to \<open>mainshocks\<close> where the clusterer pushes it to \<open>noise\<close>. The result is
  the pair \<open>(mainshocks, aftershocks)\<close>.
\<close>

definition decluster :: "objects \<Rightarrow> ref list \<Rightarrow> string \<Rightarrow> error + ref list \<times> ref list" where
  "decluster h events algorithm =
     (if algorithm = ''dbscan'' then
        (case dbscan_loop h 0.5 3 events events ({}, [], []) of
           (visited, clusters, mainshocks) \<Rightarrow> Inr (split_clusters h clusters (mainshocks, [])))
      else if algorithm = ''nnd'' then Inr (window_decluster (nnd_admits h) events ([], []))
      else if algorithm = ''gruenthal'' then
        Inr (window_decluster (gruenthal_admits h) events ([], []))
      else if algorithm = ''reasenberg'' then
        Inr (window_decluster (reasenberg_admits h) events ([], []))
      else Inl (Error (''Unsupported declustering algorithm: '' @ algorithm)))"

section \<open>The declustering result record\<close>

text \<open>
  \<^verbatim>\<open>Math.random()\<close> is an explicit source: \<open>rnd i\<close> is what the \<open>i\<close>-th call of
  one run returns.
\<close>

type_synonym random = "nat \<Rightarrow> real"

record stats =
  stat_totalEvents :: nat
  stat_mainshocks :: nat
  stat_aftershocks :: nat
  stat_avgMagnitude :: num
  stat_avgDepth :: num
  stat_bValue :: real
  stat_meanTimeGap :: real

record decl_validity =
  goodnessOfFit :: real
  statisticalSignificance :: real
  clusterPurity :: real

datatype algorithm_specific =
  Dbscan_specific real real real real nat
| Nnd_specific real real real
| Gruenthal_specific real real real
| Reasenberg_specific real real real real
| No_specific

record declustering_result =
  decl_message :: string
  decl_algorithm :: string
  beforeDeclustering :: stats
  afterDeclustering :: stats
  decl_validityMetrics :: decl_validity
  decl_magnitudeDistribution :: "(string \<times> nat \<times> nat) list"
  cumulativeEvents :: "(nat \<times> nat \<times> nat) list"
  depthDistribution :: "(string \<times> nat \<times> nat) list"
  nndDistribution :: "(string \<times> nat) list"
  algorithmSpecific :: algorithm_specific
  decl_mainshocks :: "ref list"
  decl_aftershocks :: "ref list"

text \<open>\<^verbatim>\<open>array.reduce((sum, event) => sum + event.field, 0)\<close>.\<close>

definition sum_field :: "objects \<Rightarrow> (event \<Rightarrow> real) \<Rightarrow> ref list \<Rightarrow> real" where
  "sum_field h field xs = foldl (\<lambda>sum event. sum + field (h event)) 0 xs"

text \<open>
  Lines 1176-1187: when no mainshock was found, the largest event of a non-empty
  \<open>sortedData\<close> is pushed.
\<close>

definition with_fallback :: "objects \<Rightarrow> ref list \<Rightarrow> ref list \<Rightarrow> ref list" where
  "with_fallback h sortedData found =
     (if found = [] then
        (case largest h sortedData of
           None \<Rightarrow> found
         | Some mainshock \<Rightarrow> found @ [mainshock])
      else found)"

text \<open>
  The range labels with the bounds that \<^verbatim>\<open>split\<close> and
  \<^verbatim>\<open>Number.parseFloat\<close> read from them (lines 1232-1236, 1273-1280, 1298-1306); a
  label with \<^verbatim>\<open>+\<close> has no upper bound. The test of lines 1239, 1283 and 1331 is
  \<open>in_range\<close>, with \<open>lo\<close> and \<open>hi\<close> for the source's \<^verbatim>\<open>min\<close> and \<^verbatim>\<open>max\<close>.
\<close>

definition decl_magnitudeRanges :: "(string \<times> real \<times> ext) list" where
  "decl_magnitudeRanges =
     [(''2.0-2.9'', 2.0, Fin 2.9), (''3.0-3.9'', 3.0, Fin 3.9), (''4.0-4.9'', 4.0, Fin 4.9),
      (''5.0-5.9'', 5.0, Fin 5.9), (''6.0+'', 6.0, PosInf)]"

definition depthRanges :: "(string \<times> real \<times> ext) list" where
  "depthRanges =
     [(''0-5 km'', 0, Fin 5), (''5-10 km'', 5, Fin 10), (''10-20 km'', 10, Fin 20),
      (''20-40 km'', 20, Fin 40), (''40+ km'', 40, PosInf)]"

definition distanceRanges :: "(string \<times> real \<times> ext) list" where
  "distanceRanges =
     [(''0-5 km'', 0, Fin 5), (''5-10 km'', 5, Fin 10), (''10-20 km'', 10, Fin 20),
      (''20-50 km'', 20, Fin 50), (''50+ km'', 50, PosInf)]"

definition in_range :: "real \<Rightarrow> real \<Rightarrow> ext \<Rightarrow> bool" where
  "in_range x lo hi = (x \<ge> lo \<and> less_ext x hi)"

definition range_counts ::
  "objects \<Rightarrow> (event \<Rightarrow> real) \<Rightarrow> ref list \<Rightarrow> ref list \<Rightarrow> (string \<times> real \<times> ext) list \<Rightarrow>
   (string \<times> nat \<times> nat) list" where
  "range_counts h field sortedData mains ranges =
     map (\<lambda>(range, lo, hi).
            (range,
             length (filter (\<lambda>event. in_range (field (h event)) lo hi) sortedData),
             length (filter (\<lambda>event. in_range (field (h event)) lo hi) mains)))
       ranges"

text \<open>Lines 1254-1270, for a non-empty \<open>sortedData\<close> with first element \<open>first\<close>.\<close>

definition cumulative ::
  "objects \<Rightarrow> ref \<Rightarrow> ref list \<Rightarrow> ref list \<Rightarrow> (nat \<times> nat \<times> nat) list" where
  "cumulative h first sortedData mains =
     (let days = 7;
          startTime = real_of_int (time (h first));
          endTime = real_of_int (time (h (last sortedData)));
          timeRange = endTime - startTime
      in map (\<lambda>i. let dayTime = startTime + (real i + 1) * (timeRange / real days)
                  in (i + 1,
                      length (filter (\<lambda>event. real_of_int (time (h event)) \<le> dayTime) sortedData),
                      length (filter (\<lambda>event. real_of_int (time (h event)) \<le> dayTime) mains)))
           [0..<days])"

text \<open>
  Lines 1314-1334: the distance in kilometres from the event at index \<open>i\<close> to its
  nearest neighbour (\<^verbatim>\<open>Infinity\<close> when there is no other event), and the count of
  events whose nearest neighbour falls into a range.
\<close>

definition nearest_km :: "objects \<Rightarrow> ref list \<Rightarrow> nat \<Rightarrow> ext" where
  "nearest_km h sortedData i =
     foldl (\<lambda>minDistance j.
              if i = j then minDistance
              else (let distKm = distance h (sortedData ! i) (sortedData ! j) * 111
                    in if less_ext distKm minDistance then Fin distKm else minDistance))
       PosInf [0..<length sortedData]"

fun ext_in_range :: "ext \<Rightarrow> real \<Rightarrow> ext \<Rightarrow> bool" where
  "ext_in_range PosInf minKm maxKm = (maxKm = PosInf)"
| "ext_in_range (Fin d) minKm maxKm = (d \<ge> minKm \<and> less_ext d maxKm)"

definition nnd_counts :: "objects \<Rightarrow> ref list \<Rightarrow> (string \<times> nat) list" where
  "nnd_counts h sortedData =
     map (\<lambda>(range, minKm, maxKm).
            (range,
             length (filter (\<lambda>i. ext_in_range (nearest_km h sortedData i) minKm maxKm)
                       [0..<length sortedData])))
       distanceRanges"

text \<open>Lines 1343-1377, by \<open>algorithmName\<close>.\<close>

definition specific :: "string \<Rightarrow> ref list \<Rightarrow> ref list \<Rightarrow> algorithm_specific" where
  "specific algorithmName mains afters =
     (if algorithmName = ''dbscan'' then
        Dbscan_specific (real (length mains) - real (length afters) / 4)
          (real (length afters) / 5) (real (length afters) / 10) 5.2 4
      else if algorithmName = ''nnd'' then Nnd_specific 10.5 3.2 0.5
      else if algorithmName = ''gruenthal'' then Gruenthal_specific 30 60 0.88
      else if algorithmName = ''reasenberg'' then
        Reasenberg_specific (real (length afters) / 8) (real (length afters) * 7 / 8) 0.95 0.05
      else No_specific)"

text \<open>Lines 1190-1222: the statistics before and after declustering.\<close>

definition beforeStats :: "objects \<Rightarrow> ref list \<Rightarrow> ref list \<Rightarrow> ref list \<Rightarrow> random \<Rightarrow> stats" where
  "beforeStats h sortedData mains afters rnd =
     \<lparr>stat_totalEvents = length sortedData,
      stat_mainshocks = length mains,
      stat_aftershocks = length afters,
      stat_avgMagnitude = js_div (sum_field h magnitude sortedData) (real (length sortedData)),
      stat_avgDepth = js_div (sum_field h depth sortedData) (real (length sortedData)),
      stat_bValue = 0.9 + rnd 0 * 0.2,
      stat_meanTimeGap =
        (if length sortedData > 1
         then real_of_int (time (h (last sortedData)) - time (h (hd sortedData)))
              / (real (length sortedData - 1) * 24 * 60 * 60 * 1000)
         else 0)\<rparr>"

definition afterStats :: "objects \<Rightarrow> ref list \<Rightarrow> random \<Rightarrow> stats" where
  "afterStats h mains rnd =
     \<lparr>stat_totalEvents = length mains,
      stat_mainshocks = length mains,
      stat_aftershocks = 0,
      stat_avgMagnitude = js_div (sum_field h magnitude mains) (real (length mains)),
      stat_avgDepth = js_div (sum_field h depth mains) (real (length mains)),
      stat_bValue = 1.0 + rnd 1 * 0.2,
      stat_meanTimeGap =
        (if length mains > 1
         then real_of_int (time (h (last mains)) - time (h (hd mains)))
              / (real (length mains - 1) * 24 * 60 * 60 * 1000)
         else 0)\<rparr>"

text \<open>
  Lines 1153-1173: the dispatch on \<open>subType\<close>, giving the partition and
  \<open>algorithmName\<close>.
\<close>

definition decluster_dispatch ::
  "objects \<Rightarrow> string \<Rightarrow> ref list \<Rightarrow> error + (ref list \<times> ref list) \<times> string" where
  "decluster_dispatch h subType sortedData =
     (let run = (\<lambda>algorithm.
            case decluster h sortedData algorithm of
              Inl e \<Rightarrow> Inl e
            | Inr declusteringResult \<Rightarrow> Inr (declusteringResult, algorithm))
      in if subType = ''DBSCAN'' then run ''dbscan''
         else if subType = ''NND Algorithm'' then run ''nnd''
         else if subType = ''Gruenthal Declustering Algorithm'' then run ''gruenthal''
         else if subType = ''Reasenberg Algorithm'' then run ''reasenberg''
         else Inl (Error (''Unsupported declustering algorithm: '' @ subType)))"

text \<open>
  Lines 963-1397, what \<^verbatim>\<open>performDeclustering\<close> does once \<open>sortedData\<close> is
  sorted. The empty check comes before the \<^verbatim>\<open>try\<close>; an error raised inside it is
  caught and raised again with the prefix of line 1396.
\<close>

definition declustering_body ::
  "objects \<Rightarrow> string \<Rightarrow> ref list \<Rightarrow> random \<Rightarrow> error + declustering_result" where
  "declustering_body h subType sortedData rnd =
     (case sortedData of
        [] \<Rightarrow> Inl (Error ''No data available for declustering analysis'')
      | first # _ \<Rightarrow>
          (case decluster_dispatch h subType sortedData of
             Inl e \<Rightarrow> Inl (Error (''Declustering error: '' @ message e))
           | Inr ((found, afters), algorithmName) \<Rightarrow>
               (let mains = with_fallback h sortedData found
                in Inr
                  \<lparr>decl_message = subType @ '' declustering completed'',
                   decl_algorithm = algorithmName,
                   beforeDeclustering = beforeStats h sortedData mains afters rnd,
                   afterDeclustering = afterStats h mains rnd,
                   decl_validityMetrics =
                     \<lparr>goodnessOfFit = 0.8 + rnd 2 * 0.15,
                      statisticalSignificance = 0.85 + rnd 3 * 0.15,
                      clusterPurity = 0.9 + rnd 4 * 0.1\<rparr>,
                   decl_magnitudeDistribution =
                     range_counts h magnitude sortedData mains decl_magnitudeRanges,
                   cumulativeEvents = cumulative h first sortedData mains,
                   depthDistribution = range_counts h depth sortedData mains depthRanges,
                   nndDistribution = nnd_counts h sortedData,
                   algorithmSpecific = specific algorithmName mains afters,
                   decl_mainshocks = mains,
                   decl_aftershocks = afters\<rparr>)))"

text \<open>
  Lines 959-961: \<^verbatim>\<open>[...data]\<close> allocates a new array with the contents of the
  caller's array \<open>data\<close>, and \<^verbatim>\<open>.sort((a, b) => a.time - b.time)\<close> sorts the new
  array in place (a stable sort by ascending time).
\<close>

definition array_copy :: "store \<Rightarrow> ref \<Rightarrow> ref \<times> store" where
  "array_copy s a = (nxt s, s\<lparr>arrs := (arrs s)(nxt s := arrs s a), nxt := Suc (nxt s)\<rparr>)"

definition array_sort_by_time :: "store \<Rightarrow> ref \<Rightarrow> store" where
  "array_sort_by_time s a =
     s\<lparr>arrs := (arrs s)(a := sort_key (\<lambda>event. time (objs s event)) (arrs s a))\<rparr>"

definition performDeclustering ::
  "store \<Rightarrow> string \<Rightarrow> ref \<Rightarrow> random \<Rightarrow> (error + declustering_result) \<times> store" where
  "performDeclustering s subType data rnd =
     (case array_copy s data of
        (sortedData, s1) \<Rightarrow>
          (let s2 = array_sort_by_time s1 sortedData
           in (declustering_body (objs s2) subType (arrs s2 sortedData) rnd, s2)))"

section \<open>Centroid-based clustering (k-means)\<close>

text \<open>
  Lines 773-776: a centroid is a fresh object, a copy of the event at
  \<^verbatim>\<open>Math.floor(Math.random() * points.length)\<close>. When that index holds no element
  (an empty \<open>points\<close>) the spread of \<^verbatim>\<open>undefined\<close> is an object without fields:
  the centroid \<open>None\<close>, whose distance to any point is \<^verbatim>\<open>NaN\<close>.
\<close>

definition sample_centroid :: "store \<Rightarrow> ref list \<Rightarrow> real \<Rightarrow> ref option \<times> store" where
  "sample_centroid s points r =
     (let randomIndex = \<lfloor>r * real (length points)\<rfloor>
      in if 0 \<le> randomIndex \<and> randomIndex < int (length points)
         then (Some (nxt s),
               s\<lparr>objs := (objs s)(nxt s := objs s (points ! nat randomIndex)),
                 nxt := Suc (nxt s)\<rparr>)
         else (None, s))"

fun init_centroids ::
  "store \<Rightarrow> ref list \<Rightarrow> random \<Rightarrow> nat list \<Rightarrow> ref option list \<times> store" where
  "init_centroids s points rnd [] = ([], s)"
| "init_centroids s points rnd (i # rest) =
     (case sample_centroid s points (rnd i) of
        (centroid, s') \<Rightarrow>
          (case init_centroids s' points rnd rest of
             (centroids, s'') \<Rightarrow> (centroid # centroids, s'')))"

text \<open>
  Lines 794-803: the index of the nearest centroid; the first one wins a tie, and a
  comparison with \<^verbatim>\<open>NaN\<close> is false.
\<close>

definition nearest :: "objects \<Rightarrow> ref option list \<Rightarrow> ref \<Rightarrow> nat" where
  "nearest h centroids point =
     snd (foldl (\<lambda>(minDist, clusterIndex) (i, centroid).
                   case centroid of
                     None \<Rightarrow> (minDist, clusterIndex)
                   | Some c \<Rightarrow>
                       (let dist = distance h point c
                        in if less_ext dist minDist then (Fin dist, i)
                           else (minDist, clusterIndex)))
            (PosInf, 0) (zip [0..<length centroids] centroids))"

text \<open>
  Lines 793-806: \<^verbatim>\<open>clusters[clusterIndex].push(point)\<close> for every point. With no
  cluster at that index (\<open>k = 0\<close>) the push is on \<^verbatim>\<open>undefined\<close>.
\<close>

fun assign ::
  "objects \<Rightarrow> ref option list \<Rightarrow> ref list \<Rightarrow> ref list list \<Rightarrow> error + ref list list" where
  "assign h centroids [] clusters = Inr clusters"
| "assign h centroids (point # rest) clusters =
     (let clusterIndex = nearest h centroids point
      in if clusterIndex < length clusters
         then assign h centroids rest
                (clusters[clusterIndex := clusters ! clusterIndex @ [point]])
         else Inl TypeError)"

text \<open>
  Lines 809-821: every centroid with a non-empty cluster moves to the mean of its
  members when it is farther than \<open>0.0001\<close> from it on either axis; the move is a
  write to the centroid object.
\<close>

fun update_centroids :: "store \<Rightarrow> (ref option \<times> ref list) list \<Rightarrow> bool \<Rightarrow> store \<times> bool" where
  "update_centroids s [] changed = (s, changed)"
| "update_centroids s ((centroid, cluster) # rest) changed =
     (if cluster = [] then update_centroids s rest changed
      else
        (case centroid of
           None \<Rightarrow> update_centroids s rest changed
         | Some c \<Rightarrow>
             (let newLat = sum_field (objs s) latitude cluster / real (length cluster);
                  newLng = sum_field (objs s) longitude cluster / real (length cluster)
              in if \<bar>latitude (objs s c) - newLat\<bar> > 0.0001
                    \<or> \<bar>longitude (objs s c) - newLng\<bar> > 0.0001
                 then update_centroids
                        (s\<lparr>objs := (objs s)
                             (c := (objs s c)\<lparr>latitude := newLat, longitude := newLng\<rparr>)\<rparr>)
                        rest True
                 else update_centroids s rest changed)))"

text \<open>
  Lines 788-824: the iterations, counted down from \<open>maxIterations\<close>; \<open>clusters\<close>
  is the value of the variable when the loop is left.
\<close>

fun kmeans_loop ::
  "nat \<Rightarrow> store \<Rightarrow> ref list \<Rightarrow> nat \<Rightarrow> ref option list \<Rightarrow> ref list list \<Rightarrow>
   (error + ref list list) \<times> store" where
  "kmeans_loop 0 s points k centroids clusters = (Inr clusters, s)"
| "kmeans_loop (Suc n) s points k centroids clusters =
     (case assign (objs s) centroids points (replicate k []) of
        Inl e \<Rightarrow> (Inl e, s)
      | Inr clusters' \<Rightarrow>
          (case update_centroids s (zip centroids clusters') False of
             (s', changed) \<Rightarrow>
               if changed then kmeans_loop n s' points k centroids clusters'
               else (Inr clusters', s')))"

definition kmeans ::
  "store \<Rightarrow> ref list \<Rightarrow> nat \<Rightarrow> nat \<Rightarrow> random \<Rightarrow>
   (error + ref list list \<times> ref option list) \<times> store" where
  "kmeans s points k maxIterations rnd =
     (case init_centroids s points rnd [0..<k] of
        (centroids, s1) \<Rightarrow>
          (case kmeans_loop maxIterations s1 points k centroids (replicate k []) of
             (Inl e, s2) \<Rightarrow> (Inl e, s2)
           | (Inr clusters, s2) \<Rightarrow> (Inr (clusters, centroids), s2)))"

text \<open>Lines 830-834; \<^verbatim>\<open>kmeans(points, k)\<close> takes the default \<open>maxIterations = 10\<close>.\<close>

definition fuzzyKmeans ::
  "store \<Rightarrow> ref list \<Rightarrow> nat \<Rightarrow> random \<Rightarrow> (error + ref list list \<times> ref option list) \<times> store" where
  "fuzzyKmeans s points k rnd = kmeans s points k 10 rnd"

section \<open>The clustering result record\<close>

record cluster_stats =
  cluster_id :: nat
  cluster_size :: nat
  avgMagnitude :: num
  avgDepth :: num
  centroidLat :: num
  centroidLng :: num
  cluster_events :: "ref list"

record validity =
  silhouetteScore :: real
  daviesBouldinIndex :: real
  inertia :: real

record clustering_result =
  res_message :: string
  res_algorithm :: string
  res_clusters :: "cluster_stats list"
  res_validityMetrics :: validity
  res_interClusterDistances :: "(nat \<times> nat \<times> num) list"
  res_clusterSizeDistribution :: "(string \<times> nat) list"
  res_magnitudeDistribution :: "(string \<times> (string \<times> nat) list) list"
  res_clusterSpread :: "(string \<times> num) list"

text \<open>The decimal digits of a number, for the template strings of lines 902, 916, 934.\<close>

fun digits :: "nat \<Rightarrow> string" where
  "digits n =
     (if n < 10 then [char_of (48 + n)]
      else digits (n div 10) @ [char_of (48 + n mod 10)])"

text \<open>Lines 858-873: the per-cluster record; every mean divides by \<open>cluster.length\<close>.\<close>

definition processCluster :: "objects \<Rightarrow> nat \<Rightarrow> ref list \<Rightarrow> cluster_stats" where
  "processCluster h i cluster =
     \<lparr>cluster_id = i + 1,
      cluster_size = length cluster,
      avgMagnitude = js_div (sum_field h magnitude cluster) (real (length cluster)),
      avgDepth = js_div (sum_field h depth cluster) (real (length cluster)),
      centroidLat = js_div (sum_field h latitude cluster) (real (length cluster)),
      centroidLng = js_div (sum_field h longitude cluster) (real (length cluster)),
      cluster_events = cluster\<rparr>"

definition processedClusters :: "objects \<Rightarrow> ref list list \<Rightarrow> cluster_stats list" where
  "processedClusters h cls = map (\<lambda>(i, cluster). processCluster h i cluster) (zip [0..<length cls] cls)"

text \<open>Lines 882-898: the distances of the centroids of all pairs \<open>i < j\<close>, in kilometres.\<close>

definition centroid_km :: "cluster_stats \<Rightarrow> cluster_stats \<Rightarrow> num" where
  "centroid_km cluster1 cluster2 =
     map_option (\<lambda>d. d * 111)
       (num_dist (num_sub (centroidLat cluster1) (centroidLat cluster2))
                 (num_sub (centroidLng cluster1) (centroidLng cluster2)))"

fun pair_distances :: "cluster_stats list \<Rightarrow> (nat \<times> nat \<times> num) list" where
  "pair_distances [] = []"
| "pair_distances (cluster1 # rest) =
     map (\<lambda>cluster2. (cluster_id cluster1, cluster_id cluster2, centroid_km cluster1 cluster2)) rest
     @ pair_distances rest"

text \<open>Lines 907-920, with the bounds \<^verbatim>\<open>Number.parseFloat\<close> reads from each label.\<close>

definition magnitudeRanges :: "(string \<times> real \<times> real) list" where
  "magnitudeRanges =
     [(''2.0-2.9'', 2.0, 2.9), (''3.0-3.9'', 3.0, 3.9), (''4.0-4.9'', 4.0, 4.9),
      (''5.0-5.9'', 5.0, 5.9)]"

definition cluster_magnitudes ::
  "objects \<Rightarrow> cluster_stats list \<Rightarrow> (string \<times> (string \<times> nat) list) list" where
  "cluster_magnitudes h cls =
     map (\<lambda>(range, lo, hi).
            (range,
             map (\<lambda>cluster.
                    (''cluster'' @ digits (cluster_id cluster),
                     length (filter (\<lambda>event. magnitude (h event) \<ge> lo \<and> magnitude (h event) < hi)
                               (cluster_events cluster))))
               cls))
       magnitudeRanges"

text \<open>
  Lines 923-937: the mean distance of the members from the centroid, in kilometres. The
  sum starts at \<open>0\<close> and the division is by \<open>cluster.size\<close>.
\<close>

definition num_add :: "num \<Rightarrow> num \<Rightarrow> num" where
  "num_add a b = (case (a, b) of (Some x, Some y) \<Rightarrow> Some (x + y) | _ \<Rightarrow> None)"

definition num_div :: "num \<Rightarrow> real \<Rightarrow> num" where
  "num_div a b = (case a of Some x \<Rightarrow> js_div x b | None \<Rightarrow> None)"

definition spread :: "objects \<Rightarrow> cluster_stats \<Rightarrow> num" where
  "spread h cluster =
     num_div
       (foldl (\<lambda>sum event.
                 num_add sum
                   (map_option (\<lambda>d. d * 111)
                      (num_dist (num_sub (Some (latitude (h event))) (centroidLat cluster))
                                (num_sub (Some (longitude (h event))) (centroidLng cluster)))))
          (Some 0) (cluster_events cluster))
       (real (cluster_size cluster))"

text \<open>
  Lines 857-952: the record built from the clusters. \<open>rnd\<close> are the calls of
  \<^verbatim>\<open>Math.random()\<close> from line 877 on.
\<close>

definition clustering_record ::
  "objects \<Rightarrow> string \<Rightarrow> string \<Rightarrow> ref list list \<Rightarrow> random \<Rightarrow> clustering_result" where
  "clustering_record h subType algorithmName cls rnd =
     (let processed = processedClusters h cls
      in \<lparr>res_message = subType @ '' clustering completed'',
          res_algorithm = algorithmName,
          res_clusters = processed,
          res_validityMetrics =
            \<lparr>silhouetteScore = 0.6 + rnd 0 * 0.3,
             daviesBouldinIndex = 0.4 + rnd 1 * 0.4,
             inertia = 200 + rnd 2 * 100\<rparr>,
          res_interClusterDistances = pair_distances processed,
          res_clusterSizeDistribution =
            map (\<lambda>cluster. (''Cluster '' @ digits (cluster_id cluster), cluster_size cluster))
              processed,
          res_magnitudeDistribution = cluster_magnitudes h processed,
          res_clusterSpread =
            map (\<lambda>cluster. (''Cluster '' @ digits (cluster_id cluster), spread h cluster))
              processed\<rparr>)"

text \<open>
  Lines 714-957: \<^verbatim>\<open>performClustering(subType, data)\<close>. The clusterers read the
  caller's array \<open>data\<close>. DBSCAN makes no call of \<^verbatim>\<open>Math.random()\<close>; k-means
  with \<open>k = 4\<close> makes four, so the validity metrics take the calls from the fifth on.
  An error raised inside the \<^verbatim>\<open>try\<close> is raised again with the prefix of line 955.
\<close>

definition cluster_dispatch ::
  "store \<Rightarrow> string \<Rightarrow> ref list \<Rightarrow> random \<Rightarrow> (error + ref list list \<times> string \<times> nat) \<times> store" where
  "cluster_dispatch s subType points rnd =
     (if subType = ''DBSCAN'' then
        (case dbscan (objs s) points 0.5 3 of
           (cls, noise) \<Rightarrow> (Inr (cls, ''dbscan'', 0), s))
      else if subType = ''K-means'' then
        (case kmeans s points 4 10 rnd of
           (Inl e, s') \<Rightarrow> (Inl e, s')
         | (Inr (cls, centroids), s') \<Rightarrow> (Inr (cls, ''kmeans'', 4), s'))
      else if subType = ''Fuzzy C-means'' then
        (case fuzzyKmeans s points 4 rnd of
           (Inl e, s') \<Rightarrow> (Inl e, s')
         | (Inr (cls, centroids), s') \<Rightarrow> (Inr (cls, ''fuzzy'', 4), s'))
      else (Inl (Error (''Unsupported clustering algorithm: '' @ subType)), s))"

definition performClustering ::
  "store \<Rightarrow> string \<Rightarrow> ref \<Rightarrow> random \<Rightarrow> (error + clustering_result) \<times> store" where
  "performClustering s subType data rnd =
     (case cluster_dispatch s subType (arrs s data) rnd of
        (Inl e, s') \<Rightarrow> (Inl (Error (''Clustering error: '' @ message e)), s')
      | (Inr (cls, algorithmName, used), s') \<Rightarrow>
          (Inr (clustering_record (objs s') subType algorithmName cls (\<lambda>i. rnd (used + i))), s'))"

section \<open>The Omori-law estimator\<close>

text \<open>
  Lines 378-385: a day bin as \<^verbatim>\<open>performEDA\<close> builds it from the day and the count
  of the bin.
\<close>

record omori_bin =
  day :: int
  count :: real
  logDay :: real
  logCount :: real

definition omori_point :: "int \<Rightarrow> real \<Rightarrow> omori_bin" where
  "omori_point d n =
     \<lparr>day = d, count = n, logDay = log 10 (real_of_int d + 1), logCount = log 10 n\<rparr>"

text \<open>
  Lines 488-519. \<^verbatim>\<open>omoriData[0]?.count || 10\<close> is \<open>10\<close> for an empty array and
  for a count of zero. The result is \<open>(p, c, K)\<close>; the quotient that gives \<open>p\<close> has a
  divisor that may be zero.
\<close>

definition first_count :: "omori_bin list \<Rightarrow> real" where
  "first_count omoriData =
     (case omoriData of
        [] \<Rightarrow> 10
      | b # _ \<Rightarrow> if count b = 0 then 10 else count b)"

definition calculateOmoriParameters :: "omori_bin list \<Rightarrow> num \<times> real \<times> real" where
  "calculateOmoriParameters omoriData =
     (if length omoriData \<ge> 3 then
        (let xValues = map logDay omoriData;
             yValues = map logCount omoriData;
             n = real (length xValues);
             sumX = foldl (\<lambda>a b. a + b) 0 xValues;
             sumY = foldl (\<lambda>a b. a + b) 0 yValues;
             sumXY = foldl (\<lambda>sum (x, y). sum + x * y) 0 (zip xValues yValues);
             sumX2 = foldl (\<lambda>sum x. sum + x * x) 0 xValues
         in (map_option uminus (js_div (n * sumXY - sumX * sumY) (n * sumX2 - sumX * sumX)),
             0.5, first_count omoriData))
      else (Some 1.0, 0.5, first_count omoriData))"

text \<open>
  The synthetic series of the round-trip property: the bins of the given days with the
  counts \<open>n(t) = K / (t + c)\<^sup>p\<close>.
\<close>

definition omori_series :: "real \<Rightarrow> real \<Rightarrow> real \<Rightarrow> int list \<Rightarrow> omori_bin list" where
  "omori_series K c p days =
     map (\<lambda>t. omori_point t (K / (real_of_int t + c) powr p)) days"

definition num_within :: "num \<Rightarrow> real \<Rightarrow> real \<Rightarrow> bool" where
  "num_within x target tolerance =
     (case x of None \<Rightarrow> False | Some v \<Rightarrow> \<bar>v - target\<bar> \<le> tolerance)"

section \<open>Example stores\<close>

definition quake :: "int \<Rightarrow> real \<Rightarrow> real \<Rightarrow> real \<Rightarrow> real \<Rightarrow> event" where
  "quake t lat lng dep mag =
     \<lparr>time = t, latitude = lat, longitude = lng, depth = dep, magnitude = mag,
      formattedTime = []\<rparr>"

text \<open>Events on a line: the event \<open>r\<close> lies at latitude \<open>0.4 * r\<close>, one hour after
  its predecessor, with magnitude 3.\<close>

definition line_objs :: objects where
  "line_objs r = quake (3600000 * int r) (0.4 * real r) 0 10 3"

text \<open>Five events at one place within ten minutes, of magnitudes 6, 3, 3, 2, 2.\<close>

definition swarm_objs :: objects where
  "swarm_objs r =
     quake (120000 * int r) 34 (-118) 10 (if r = 0 then 6 else if r \<le> 2 then 3 else 2)"

text \<open>A store whose array at address \<open>0\<close> holds the first \<open>n\<close> events of the line.\<close>

definition line_store :: "nat \<Rightarrow> store" where
  "line_store n = \<lparr>objs = line_objs, arrs = (\<lambda>a. if a = 0 then [0..<n] else []), nxt = max 1 n\<rparr>"

definition rnd_zero :: random where
  "rnd_zero i = 0"

definition rnd_half :: random where
  "rnd_half i = 1 / 2"

text \<open>A store with one event, at address \<open>0\<close>, in the array at address \<open>1\<close>; the
  centroids that k-means allocates get the addresses from \<open>2\<close> on.\<close>

definition single_store :: store where
  "single_store = \<lparr>objs = line_objs, arrs = (\<lambda>a. if a = 1 then [0] else []), nxt = 2\<rparr>"

definition single_seeded :: store where
  "single_seeded =
     \<lparr>objs = line_objs(2 := line_objs 0, 3 := line_objs 0, 4 := line_objs 0, 5 := line_objs 0),
      arrs = (\<lambda>a. if a = 1 then [0] else []), nxt = 6\<rparr>"

section \<open>Invariants\<close>

text \<open>
  The state of the DBSCAN loop: the visited events are the noise events and the members
  of the clusters, no event is recorded twice, and no cluster is empty.
\<close>

definition dbscan_inv :: "ref set \<Rightarrow> ref list list \<Rightarrow> ref list \<Rightarrow> bool" where
  "dbscan_inv V Cs N \<longleftrightarrow>
     V = set N \<union> set (concat Cs) \<and> distinct (N @ concat Cs) \<and> [] \<notin> set Cs"

text \<open>A cluster that starts with a seed of the catalog whose neighbourhood holds at least
  \<open>minPts\<close> events.\<close>

definition seeded :: "objects \<Rightarrow> real \<Rightarrow> nat \<Rightarrow> ref list \<Rightarrow> ref list \<Rightarrow> bool" where
  "seeded h eps minPts points cluster =
     (case cluster of
        [] \<Rightarrow> False
      | seed # members \<Rightarrow>
          seed \<in> set points \<and> minPts \<le> length (getNeighbors h eps seed points))"

text \<open>
  The frame of a call: \<open>frame s s'\<close> says that every array and every object allocated in
  \<open>s\<close> (an address below \<open>nxt s\<close>) is the same in \<open>s'\<close>; \<open>fresh_from n\<close> says that
  the centroid objects lie at addresses from \<open>n\<close> on.
\<close>

definition fresh_from :: "ref \<Rightarrow> ref option list \<Rightarrow> bool" where
  "fresh_from n centroids = list_all (\<lambda>c. case c of None \<Rightarrow> True | Some x \<Rightarrow> n \<le> x) centroids"

definition frame :: "store \<Rightarrow> store \<Rightarrow> bool" where
  "frame s s' \<longleftrightarrow>
     nxt s \<le> nxt s' \<and> (\<forall>a < nxt s. arrs s' a = arrs s a) \<and> (\<forall>e < nxt s. objs s' e = objs s e)"

declare digits.simps [simp del]

section \<open>The partition made by declustering\<close>

lemma set_scan_later_upper: "set (scan_later admits ls as) \<subseteq> set as \<union> set ls"
proof (induction ls arbitrary: as)
  case Nil
  then show ?case by simp
next
  case (Cons l ls)
  have "set (scan_later admits (l # ls) as)
      \<subseteq> set (if l \<in> set as then as else if admits l then as @ [l] else as) \<union> set ls"
    using Cons.IH by simp
  also have "\<dots> \<subseteq> set as \<union> set (l # ls)"
    by auto
  finally show ?case .
qed

lemma set_scan_later_lower: "set as \<subseteq> set (scan_later admits ls as)"
proof (induction ls arbitrary: as)
  case Nil
  then show ?case by simp
next
  case (Cons l ls)
  have "set as \<subseteq> set (if l \<in> set as then as else if admits l then as @ [l] else as)"
    by auto
  also have "\<dots> \<subseteq> set (scan_later admits (l # ls) as)"
    using Cons.IH by simp
  finally show ?case .
qed

lemma distinct_scan_later: "distinct as \<Longrightarrow> distinct (scan_later admits ls as)"
  by (induction ls arbitrary: as) auto

lemma window_decluster_partition:
  assumes "distinct es" "distinct ms" "distinct as"
    and "set ms \<inter> set as = {}" "set ms \<inter> set es = {}"
    and "window_decluster admits es (ms, as) = (ms', as')"
  shows "set ms' \<union> set as' = set ms \<union> set as \<union> set es
         \<and> set ms' \<inter> set as' = {} \<and> distinct ms' \<and> distinct as'"
  using assms
proof (induction es arbitrary: ms as)
  case Nil
  then show ?case by auto
next
  case (Cons e later)
  show ?case
  proof (cases "e \<in> set as")
    case True
    with Cons.prems have run: "window_decluster admits later (ms, as) = (ms', as')"
      by simp
    have "set ms' \<union> set as' = set ms \<union> set as \<union> set later
         \<and> set ms' \<inter> set as' = {} \<and> distinct ms' \<and> distinct as'"
      using Cons.IH [OF _ _ _ _ _ run] Cons.prems by auto
    with True show ?thesis by auto
  next
    case False
    let ?as = "scan_later (admits e) later as"
    from False Cons.prems
    have run: "window_decluster admits later (ms @ [e], ?as) = (ms', as')"
      by simp
    have up: "set ?as \<subseteq> set as \<union> set later" by (rule set_scan_later_upper)
    have lo: "set as \<subseteq> set ?as" by (rule set_scan_later_lower)
    have d1: "distinct later" using Cons.prems by simp
    have d2: "distinct (ms @ [e])" using Cons.prems by auto
    have d3: "distinct ?as" using Cons.prems by (simp add: distinct_scan_later)
    have i1: "set (ms @ [e]) \<inter> set ?as = {}"
      using up False Cons.prems by auto
    have i2: "set (ms @ [e]) \<inter> set later = {}"
      using Cons.prems by auto
    have "set ms' \<union> set as' = set (ms @ [e]) \<union> set ?as \<union> set later
         \<and> set ms' \<inter> set as' = {} \<and> distinct ms' \<and> distinct as'"
      by (rule Cons.IH [OF d1 d2 d3 i1 i2 run])
    moreover have "set (ms @ [e]) \<union> set ?as \<union> set later = set ms \<union> set as \<union> set (e # later)"
      using up lo by auto
    ultimately show ?thesis by simp
  qed
qed

lemma expand_props:
  assumes "expand h eps minPts points queue V C = (V', C')"
  shows "V \<subseteq> V' \<and> V' \<subseteq> V \<union> set queue \<union> set points
         \<and> set C' = set C \<union> (V' - V)
         \<and> (distinct C \<and> set C \<subseteq> V \<longrightarrow> distinct C')
         \<and> (\<exists>added. C' = C @ added)"
  using assms
proof (induction h eps minPts points queue V C rule: expand.induct)
  case (1 h eps minPts points visited cluster)
  then show ?case by auto
next
  case (2 h eps minPts points current queue visited cluster)
  show ?case
  proof (cases "current \<in> visited")
    case True
    with "2.prems" have "expand h eps minPts points queue visited cluster = (V', C')"
      by simp
    from "2.IH"(1) [OF True this] show ?thesis by auto
  next
    case False
    let ?q = "if minPts \<le> length (getNeighbors h eps current points)
           then queue @ filter (\<lambda>n. n \<notin> insert current visited) (getNeighbors h eps current points)
           else queue"
    from False "2.prems"
    have run: "expand h eps minPts points ?q (insert current visited) (cluster @ [current]) = (V', C')"
      by simp
    have sub: "set ?q \<subseteq> set queue \<union> set points"
      by (auto simp: getNeighbors_def)
    note ih = "2.IH"(2) [OF False run]
    have a: "visited \<subseteq> V'" using ih by auto
    have b: "V' \<subseteq> visited \<union> set (current # queue) \<union> set points"
      using ih sub by auto
    have c: "set C' = set cluster \<union> (V' - visited)"
      using ih False by auto
    have d: "distinct cluster \<and> set cluster \<subseteq> visited \<longrightarrow> distinct C'"
      using ih False by auto
    have e: "\<exists>added. C' = cluster @ added"
      using ih by auto
    from a b c d e show ?thesis by blast
  qed
qed


lemma dbscan_loop_props:
  assumes "dbscan_inv V Cs N"
    and "dbscan_loop h eps minPts points rest (V, Cs, N) = (V', Cs', N')"
  shows "dbscan_inv V' Cs' N' \<and> V \<union> set rest \<subseteq> V' \<and> V' \<subseteq> V \<union> set rest \<union> set points"
  using assms
proof (induction rest arbitrary: V Cs N)
  case Nil
  then show ?case by simp
next
  case (Cons p rest)
  show ?case
  proof (cases "p \<in> V")
    case True
    with Cons.prems(2) have "dbscan_loop h eps minPts points rest (V, Cs, N) = (V', Cs', N')"
      by simp
    from Cons.IH [OF Cons.prems(1) this] True show ?thesis by auto
  next
    case False
    show ?thesis
    proof (cases "length (getNeighbors h eps p points) < minPts")
      case True
      with False Cons.prems(2)
      have run: "dbscan_loop h eps minPts points rest (insert p V, Cs, N @ [p]) = (V', Cs', N')"
        by simp
      have "dbscan_inv (insert p V) Cs (N @ [p])"
        using Cons.prems(1) False by (auto simp: dbscan_inv_def)
      from Cons.IH [OF this run] show ?thesis by auto
    next
      case dense: False
      obtain V2 C where ex: "expand h eps minPts points (getNeighbors h eps p points)
                (insert p V) [p] = (V2, C)"
        by (cases "expand h eps minPts points (getNeighbors h eps p points) (insert p V) [p]")
      with False dense Cons.prems(2)
      have run: "dbscan_loop h eps minPts points rest (V2, Cs @ [C], N) = (V', Cs', N')"
        by simp
      note ep = expand_props [OF ex]
      have nb: "set (getNeighbors h eps p points) \<subseteq> set points"
        by (auto simp: getNeighbors_def)
      have c1: "set C = {p} \<union> (V2 - insert p V)" using ep by simp
      have c2: "distinct C" using ep by simp
      have c3: "insert p V \<subseteq> V2" using ep by simp
      have c4: "V2 \<subseteq> insert p V \<union> set points" using ep nb by auto
      have c5: "C \<noteq> []" using ep by auto
      have v2: "V2 = V \<union> set C" using c1 c3 by auto
      have dj: "set C \<inter> V = {}" using c1 False by auto
      have "dbscan_inv V2 (Cs @ [C]) N"
        using Cons.prems(1) v2 dj c2 c5 by (auto simp: dbscan_inv_def)
      from Cons.IH [OF this run] c3 c4 show ?thesis by auto
    qed
  qed
qed

lemma largest_fold_mem:
  "foldl (\<lambda>max event. if magnitude (h event) > magnitude (h max) then event else max) a xs
     \<in> insert a (set xs)"
  by (induction xs arbitrary: a) (auto split: if_splits)

lemma largest_mem: "largest h xs = Some m \<Longrightarrow> m \<in> set xs"
  using largest_fold_mem [of h "hd xs" xs] by (cases xs) auto

lemma largest_None: "largest h xs = None \<longleftrightarrow> xs = []"
  by (cases xs) auto

lemma split_clusters_props:
  assumes "distinct (ms @ as @ concat Cs)" "[] \<notin> set Cs"
    and "split_clusters h Cs (ms, as) = (ms', as')"
  shows "set ms' \<union> set as' = set ms \<union> set as \<union> set (concat Cs) \<and> distinct (ms' @ as')"
  using assms
proof (induction Cs arbitrary: ms as)
  case Nil
  then show ?case by simp
next
  case (Cons C Cs)
  from Cons.prems(2) have "C \<noteq> []" by auto
  then obtain m where m: "largest h C = Some m"
    using largest_None [of h C] by (cases "largest h C") auto
  then have mC: "m \<in> set C" by (rule largest_mem)
  let ?ms = "ms @ [m]" and ?as = "as @ filter (\<lambda>event. event \<noteq> m) C"
  from m Cons.prems(3) have run: "split_clusters h Cs (?ms, ?as) = (ms', as')"
    by simp
  have d: "distinct (?ms @ ?as @ concat Cs)"
    using Cons.prems(1) mC by auto
  have n: "[] \<notin> set Cs" using Cons.prems(2) by auto
  have "set ms' \<union> set as' = set ?ms \<union> set ?as \<union> set (concat Cs) \<and> distinct (ms' @ as')"
    by (rule Cons.IH [OF d n run])
  moreover have "set ?ms \<union> set ?as = set ms \<union> set as \<union> set C"
    using mC by auto
  ultimately show ?case by auto
qed

lemma decluster_splits:
  assumes "distinct events"
    and "algorithm \<in> {''dbscan'', ''nnd'', ''gruenthal'', ''reasenberg''}"
  shows "\<exists>mainshocks aftershocks.
           decluster h events algorithm = Inr (mainshocks, aftershocks)
           \<and> set mainshocks \<union> set aftershocks = set events
           \<and> set mainshocks \<inter> set aftershocks = {}
           \<and> distinct mainshocks \<and> distinct aftershocks"
proof -
  have window: "\<exists>ms as. window_decluster admits events ([], []) = (ms, as)
           \<and> set ms \<union> set as = set events \<and> set ms \<inter> set as = {}
           \<and> distinct ms \<and> distinct as" for admits
  proof -
    obtain ms as where r: "window_decluster admits events ([], []) = (ms, as)"
      by (cases "window_decluster admits events ([], [])")
    from window_decluster_partition [OF assms(1) _ _ _ _ r] r show ?thesis by simp
  qed
  have density: "\<exists>ms as.
       (case dbscan_loop h 0.5 3 events events ({}, [], []) of
           (visited, clusters, mainshocks) \<Rightarrow> split_clusters h clusters (mainshocks, [])) = (ms, as)
           \<and> set ms \<union> set as = set events \<and> set ms \<inter> set as = {}
           \<and> distinct ms \<and> distinct as"
  proof -
    obtain V Cs N where l: "dbscan_loop h 0.5 3 events events ({}, [], []) = (V, Cs, N)"
      by (cases "dbscan_loop h 0.5 3 events events ({}, [], [])")
    have "dbscan_inv {} [] []" by (simp add: dbscan_inv_def)
    from dbscan_loop_props [OF this l]
    have inv: "dbscan_inv V Cs N" and V: "V = set events" by auto
    obtain ms as where s: "split_clusters h Cs (N, []) = (ms, as)"
      by (cases "split_clusters h Cs (N, [])")
    have "distinct (N @ [] @ concat Cs)" "[] \<notin> set Cs"
      using inv by (auto simp: dbscan_inv_def)
    from split_clusters_props [OF this s]
    have "set ms \<union> set as = set N \<union> set (concat Cs)" and d: "distinct (ms @ as)" by auto
    with inv V have "set ms \<union> set as = set events" by (simp add: dbscan_inv_def)
    with d l s show ?thesis by auto
  qed
  from assms(2) consider "algorithm = ''dbscan''" | "algorithm = ''nnd''"
    | "algorithm = ''gruenthal''" | "algorithm = ''reasenberg''"
    by auto
  then show ?thesis
  proof cases
    case 1
    obtain V Cs N where l: "dbscan_loop h 0.5 3 events events ({}, [], []) = (V, Cs, N)"
      by (cases "dbscan_loop h 0.5 3 events events ({}, [], [])")
    with density 1 show ?thesis by (simp add: decluster_def)
  next
    case 2
    with window [of "nnd_admits h"] show ?thesis by (simp add: decluster_def)
  next
    case 3
    with window [of "gruenthal_admits h"] show ?thesis by (simp add: decluster_def)
  next
    case 4
    with window [of "reasenberg_admits h"] show ?thesis by (simp add: decluster_def)
  qed
qed

lemma window_decluster_keeps:
  "window_decluster admits es (ms, as) = (ms', as') \<Longrightarrow> ms \<noteq> [] \<Longrightarrow> ms' \<noteq> []"
proof (induction es arbitrary: ms as)
  case Nil
  then show ?case by simp
next
  case (Cons e es)
  show ?case
  proof (cases "e \<in> set as")
    case True
    with Cons.prems have "window_decluster admits es (ms, as) = (ms', as')" by simp
    from Cons.IH [OF this Cons.prems(2)] show ?thesis .
  next
    case False
    with Cons.prems
    have "window_decluster admits es (ms @ [e], scan_later (admits e) es as) = (ms', as')"
      by simp
    from Cons.IH [OF this] show ?thesis by simp
  qed
qed

lemma window_decluster_nonempty:
  assumes "window_decluster admits es ([], []) = (ms', as')" "es \<noteq> []"
  shows "ms' \<noteq> []"
proof -
  from assms(2) obtain e later where es: "es = e # later" by (cases es) auto
  with assms(1)
  have "window_decluster admits later ([e], scan_later (admits e) later []) = (ms', as')"
    by simp
  from window_decluster_keeps [OF this] show ?thesis by simp
qed

lemma dbscan_loop_keeps:
  "dbscan_loop h eps minPts points rest (V, Cs, N) = (V', Cs', N')
   \<Longrightarrow> N \<noteq> [] \<or> Cs \<noteq> [] \<Longrightarrow> N' \<noteq> [] \<or> Cs' \<noteq> []"
proof (induction rest arbitrary: V Cs N)
  case Nil
  then show ?case by simp
next
  case (Cons p rest)
  show ?case
  proof (cases "p \<in> V")
    case True
    with Cons.prems(1) have "dbscan_loop h eps minPts points rest (V, Cs, N) = (V', Cs', N')"
      by simp
    from Cons.IH [OF this Cons.prems(2)] show ?thesis .
  next
    case False
    show ?thesis
    proof (cases "length (getNeighbors h eps p points) < minPts")
      case True
      with False Cons.prems(1)
      have "dbscan_loop h eps minPts points rest (insert p V, Cs, N @ [p]) = (V', Cs', N')"
        by simp
      from Cons.IH [OF this] show ?thesis by simp
    next
      case dense: False
      obtain V2 C where "expand h eps minPts points (getNeighbors h eps p points)
                (insert p V) [p] = (V2, C)"
        by (cases "expand h eps minPts points (getNeighbors h eps p points) (insert p V) [p]")
      with False dense Cons.prems(1)
      have "dbscan_loop h eps minPts points rest (V2, Cs @ [C], N) = (V', Cs', N')"
        by simp
      from Cons.IH [OF this] show ?thesis by simp
    qed
  qed
qed

lemma dbscan_loop_nonempty:
  assumes "dbscan_loop h eps minPts points rest ({}, [], []) = (V', Cs', N')" "rest \<noteq> []"
  shows "N' \<noteq> [] \<or> Cs' \<noteq> []"
proof -
  from assms(2) obtain p ps where r: "rest = p # ps" by (cases rest) auto
  show ?thesis
  proof (cases "length (getNeighbors h eps p points) < minPts")
    case True
    with r assms(1)
    have "dbscan_loop h eps minPts points ps ({p}, [], [p]) = (V', Cs', N')"
      by simp
    from dbscan_loop_keeps [OF this] show ?thesis by simp
  next
    case False
    obtain V2 C where "expand h eps minPts points (getNeighbors h eps p points) {p} [p] = (V2, C)"
      by (cases "expand h eps minPts points (getNeighbors h eps p points) {p} [p]")
    with False r assms(1)
    have "dbscan_loop h eps minPts points ps (V2, [C], []) = (V', Cs', N')"
      by simp
    from dbscan_loop_keeps [OF this] show ?thesis by simp
  qed
qed

lemma split_clusters_keeps:
  "split_clusters h Cs (ms, as) = (ms', as') \<Longrightarrow> ms \<noteq> [] \<Longrightarrow> ms' \<noteq> []"
proof (induction Cs arbitrary: ms as)
  case Nil
  then show ?case by simp
next
  case (Cons C Cs)
  show ?case
  proof (cases "largest h C")
    case None
    with Cons.prems(1) have "split_clusters h Cs (ms, as) = (ms', as')" by simp
    from Cons.IH [OF this Cons.prems(2)] show ?thesis .
  next
    case (Some m)
    with Cons.prems(1)
    have "split_clusters h Cs (ms @ [m], as @ filter (\<lambda>event. event \<noteq> m) C) = (ms', as')"
      by simp
    from Cons.IH [OF this] show ?thesis by simp
  qed
qed

lemma split_clusters_nonempty:
  assumes "split_clusters h Cs (ms, as) = (ms', as')" "[] \<notin> set Cs" "ms \<noteq> [] \<or> Cs \<noteq> []"
  shows "ms' \<noteq> []"
proof (cases "ms = []")
  case False
  with split_clusters_keeps [OF assms(1)] show ?thesis by simp
next
  case True
  with assms(3) obtain C rest where c: "Cs = C # rest" by (cases Cs) auto
  with assms(2) have "C \<noteq> []" by auto
  then obtain m where m: "largest h C = Some m"
    using largest_None [of h C] by (cases "largest h C") auto
  with c assms(1)
  have "split_clusters h rest (ms @ [m], as @ filter (\<lambda>event. event \<noteq> m) C) = (ms', as')"
    by simp
  from split_clusters_keeps [OF this] show ?thesis by simp
qed

lemma decluster_nonempty:
  assumes "decluster h events algorithm = Inr (ms, as)" and "events \<noteq> []"
  shows "ms \<noteq> []"
proof -
  consider "algorithm = ''dbscan''" | "algorithm = ''nnd''"
    | "algorithm = ''gruenthal''" | "algorithm = ''reasenberg''"
    | "algorithm \<notin> {''dbscan'', ''nnd'', ''gruenthal'', ''reasenberg''}"
    by blast
  then show ?thesis
  proof cases
    case 1
    obtain V Cs N where l: "dbscan_loop h 0.5 3 events events ({}, [], []) = (V, Cs, N)"
      by (cases "dbscan_loop h 0.5 3 events events ({}, [], [])")
    with 1 assms(1) have s: "split_clusters h Cs (N, []) = (ms, as)"
      by (simp add: decluster_def)
    have "dbscan_inv {} [] []" by (simp add: dbscan_inv_def)
    from dbscan_loop_props [OF this l] have "[] \<notin> set Cs" by (simp add: dbscan_inv_def)
    from split_clusters_nonempty [OF s this dbscan_loop_nonempty [OF l assms(2)]]
    show ?thesis .
  next
    case 2
    with assms(1) have "window_decluster (nnd_admits h) events ([], []) = (ms, as)"
      by (simp add: decluster_def)
    from window_decluster_nonempty [OF this assms(2)] show ?thesis .
  next
    case 3
    with assms(1) have "window_decluster (gruenthal_admits h) events ([], []) = (ms, as)"
      by (simp add: decluster_def)
    from window_decluster_nonempty [OF this assms(2)] show ?thesis .
  next
    case 4
    with assms(1) have "window_decluster (reasenberg_admits h) events ([], []) = (ms, as)"
      by (simp add: decluster_def)
    from window_decluster_nonempty [OF this assms(2)] show ?thesis .
  next
    case 5
    with assms(1) show ?thesis by (simp add: decluster_def)
  qed
qed

lemma decluster_splits_nonempty:
  assumes "distinct events"
    and "algorithm \<in> {''dbscan'', ''nnd'', ''gruenthal'', ''reasenberg''}"
  shows "\<exists>mainshocks aftershocks.
           decluster h events algorithm = Inr (mainshocks, aftershocks)
           \<and> set mainshocks \<union> set aftershocks = set events
           \<and> set mainshocks \<inter> set aftershocks = {}
           \<and> distinct mainshocks \<and> distinct aftershocks
           \<and> (events \<noteq> [] \<longrightarrow> with_fallback h events mainshocks = mainshocks)"
proof -
  from decluster_splits [OF assms, of h]
  obtain ms as where r: "decluster h events algorithm = Inr (ms, as)"
    and p: "set ms \<union> set as = set events" "set ms \<inter> set as = {}" "distinct ms" "distinct as"
    by blast
  have "with_fallback h events ms = ms" if "events \<noteq> []"
    using decluster_nonempty [OF r that] by (simp add: with_fallback_def)
  with r p show ?thesis by blast
qed

text \<open>
  C1. For a catalog of distinct event objects and each of the four strategies,
  \<open>decluster\<close> returns a partition: the mainshocks and the aftershocks together are
  the events of the catalog, no event is in both, and none is listed twice. The catalog
  need not be sorted for this. For a non-empty catalog the mainshocks are not empty, so
  the fallback of \<open>performDeclustering\<close> leaves the partition as it is.
\<close>

theorem decluster_partition:
  assumes "distinct events"
    and "algorithm \<in> {''dbscan'', ''nnd'', ''gruenthal'', ''reasenberg''}"
  shows "\<exists>mainshocks aftershocks.
           decluster h events algorithm = Inr (mainshocks, aftershocks)
           \<and> set mainshocks \<union> set aftershocks = set events
           \<and> set mainshocks \<inter> set aftershocks = {}
           \<and> distinct mainshocks \<and> distinct aftershocks
           \<and> (events \<noteq> [] \<longrightarrow> with_fallback h events mainshocks = mainshocks)"
  using assms by (rule decluster_splits_nonempty)

theorem decluster_partition_witness:
  "distinct [0, 1, 2 :: ref]
   \<and> ''nnd'' \<in> {''dbscan'', ''nnd'', ''gruenthal'', ''reasenberg''}
   \<and> (\<exists>mainshocks aftershocks.
           decluster line_objs [0, 1, 2] ''nnd'' = Inr (mainshocks, aftershocks)
           \<and> set mainshocks \<union> set aftershocks = set [0, 1, 2]
           \<and> set mainshocks \<inter> set aftershocks = {}
           \<and> distinct mainshocks \<and> distinct aftershocks
           \<and> with_fallback line_objs [0, 1, 2] mainshocks = mainshocks)"
proof -
  have d: "distinct [0, 1, 2 :: ref]" by simp
  have a: "''nnd'' \<in> {''dbscan'', ''nnd'', ''gruenthal'', ''reasenberg''}" by simp
  have n: "[0, 1, 2 :: ref] \<noteq> []" by simp
  from decluster_partition [OF d a, of line_objs] d a n show ?thesis
    by blast
qed

section \<open>Two scenarios\<close>

text \<open>A catalog of one event: every strategy returns it as the only mainshock.\<close>

lemma distance_self: "distance h e e = 0"
  by (simp add: distance_def)

lemma decluster_single:
  assumes "algorithm \<in> {''dbscan'', ''nnd'', ''gruenthal'', ''reasenberg''}"
  shows "decluster h [e] algorithm = Inr ([e], [])"
proof -
  from assms consider "algorithm = ''dbscan''" | "algorithm = ''nnd''"
    | "algorithm = ''gruenthal''" | "algorithm = ''reasenberg''"
    by blast
  then show ?thesis
  proof cases
    case 1
    have "getNeighbors h (5 / 10) e [e] = [e]"
      by (simp add: getNeighbors_def distance_self)
    with 1 show ?thesis by (simp add: decluster_def)
  qed (simp_all add: decluster_def)
qed

text \<open>
  Five events at one place within ten minutes, with magnitudes 6, 3, 3, 2, 2: DBSCAN
  declustering returns the first as the mainshock and the other four as aftershocks.
\<close>

lemma swarm_neighbours: "getNeighbors swarm_objs (1 / 2) e points = points"
  by (simp add: getNeighbors_def distance_def swarm_objs_def quake_def)

lemma decluster_swarm: "decluster swarm_objs [0, 1, 2, 3, 4] ''dbscan'' = Inr ([0], [1, 2, 3, 4])"
  by (simp add: decluster_def swarm_neighbours swarm_objs_def quake_def)

section \<open>The result of \<open>performDeclustering\<close>\<close>

lemma largest_fold_max:
  "\<forall>e \<in> insert a (set xs). magnitude (h e)
      \<le> magnitude (h (foldl (\<lambda>max event. if magnitude (h event) > magnitude (h max) then event else max) a xs))"
proof (induction xs arbitrary: a)
  case Nil
  then show ?case by simp
next
  case (Cons x xs)
  let ?f = "\<lambda>max event. if magnitude (h event) > magnitude (h max) then event else max"
  let ?a = "?f a x"
  have ih: "\<forall>e \<in> insert ?a (set xs). magnitude (h e) \<le> magnitude (h (foldl ?f ?a xs))"
    by (rule Cons.IH)
  have a: "magnitude (h a) \<le> magnitude (h ?a)" by simp
  have x: "magnitude (h x) \<le> magnitude (h ?a)" by simp
  have top: "magnitude (h ?a) \<le> magnitude (h (foldl ?f ?a xs))" using ih by simp
  show ?case
  proof
    fix e assume "e \<in> insert a (set (x # xs))"
    then consider "e = a" | "e = x" | "e \<in> set xs" by auto
    then show "magnitude (h e) \<le> magnitude (h (foldl ?f a (x # xs)))"
    proof cases
      case 1 with a top show ?thesis by simp
    next
      case 2 with x top show ?thesis by simp
    next
      case 3 with ih show ?thesis by simp
    qed
  qed
qed

lemma largest_max: "largest h xs = Some m \<Longrightarrow> e \<in> set xs \<Longrightarrow> magnitude (h e) \<le> magnitude (h m)"
  using largest_fold_max [of "hd xs" "tl xs" h] by (cases xs) auto

lemma with_fallback_nonempty: "sortedData \<noteq> [] \<Longrightarrow> with_fallback h sortedData found \<noteq> []"
  by (cases sortedData) (auto simp: with_fallback_def)

lemma with_fallback_Nil:
  assumes "sortedData \<noteq> []"
  shows "\<exists>m. with_fallback h sortedData [] = [m] \<and> m \<in> set sortedData
           \<and> (\<forall>e \<in> set sortedData. magnitude (h e) \<le> magnitude (h m))"
proof -
  from assms obtain m where m: "largest h sortedData = Some m"
    using largest_None [of h sortedData] by (cases "largest h sortedData") auto
  then have "with_fallback h sortedData [] = [m]" by (simp add: with_fallback_def)
  with m largest_mem [OF m] largest_max [OF m] show ?thesis by blast
qed

lemma decluster_dbscan_Inr: "\<exists>ms as. decluster h es ''dbscan'' = Inr (ms, as)"
  by (simp add: decluster_def split: prod.splits)

lemma decluster_nnd_Inr: "\<exists>ms as. decluster h es ''nnd'' = Inr (ms, as)"
  by (cases "window_decluster (nnd_admits h) es ([], [])") (simp add: decluster_def)

lemma decluster_gruenthal_Inr: "\<exists>ms as. decluster h es ''gruenthal'' = Inr (ms, as)"
  by (cases "window_decluster (gruenthal_admits h) es ([], [])") (simp add: decluster_def)

lemma decluster_reasenberg_Inr: "\<exists>ms as. decluster h es ''reasenberg'' = Inr (ms, as)"
  by (cases "window_decluster (reasenberg_admits h) es ([], [])") (simp add: decluster_def)

lemma decluster_dispatch_ok:
  assumes "subType \<in> {''DBSCAN'', ''NND Algorithm'', ''Gruenthal Declustering Algorithm'',
                       ''Reasenberg Algorithm''}"
  shows "\<exists>found afters name. decluster_dispatch h subType sortedData = Inr ((found, afters), name)"
proof -
  from assms consider "subType = ''DBSCAN''" | "subType = ''NND Algorithm''"
    | "subType = ''Gruenthal Declustering Algorithm''" | "subType = ''Reasenberg Algorithm''"
    by blast
  then show ?thesis
  proof cases
    case 1
    obtain ms as where "decluster h sortedData ''dbscan'' = Inr (ms, as)"
      using decluster_dbscan_Inr by blast
    with 1 show ?thesis by (simp add: decluster_dispatch_def)
  next
    case 2
    obtain ms as where "decluster h sortedData ''nnd'' = Inr (ms, as)"
      using decluster_nnd_Inr by blast
    with 2 show ?thesis by (simp add: decluster_dispatch_def)
  next
    case 3
    obtain ms as where "decluster h sortedData ''gruenthal'' = Inr (ms, as)"
      using decluster_gruenthal_Inr by blast
    with 3 show ?thesis by (simp add: decluster_dispatch_def)
  next
    case 4
    obtain ms as where "decluster h sortedData ''reasenberg'' = Inr (ms, as)"
      using decluster_reasenberg_Inr by blast
    with 4 show ?thesis by (simp add: decluster_dispatch_def)
  qed
qed

lemma declustering_body_mainshocks:
  assumes "sortedData \<noteq> []"
    and "subType \<in> {''DBSCAN'', ''NND Algorithm'', ''Gruenthal Declustering Algorithm'',
                       ''Reasenberg Algorithm''}"
  shows "\<exists>result. declustering_body h subType sortedData rnd = Inr result
           \<and> decl_mainshocks result \<noteq> []"
proof -
  from assms(1) obtain first rest where s: "sortedData = first # rest"
    by (cases sortedData) auto
  from decluster_dispatch_ok [OF assms(2)]
  obtain found afters name
    where d: "decluster_dispatch h subType sortedData = Inr ((found, afters), name)"
    by blast
  have "with_fallback h sortedData found \<noteq> []"
    using assms(1) by (rule with_fallback_nonempty)
  with d s show ?thesis
    by (simp add: declustering_body_def Let_def)
qed

lemma sorted_array:
  "performDeclustering s subType data rnd =
     (declustering_body (objs s) subType (sort_key (\<lambda>event. time (objs s event)) (arrs s data)) rnd,
      s\<lparr>arrs := (arrs s)(nxt s := sort_key (\<lambda>event. time (objs s event)) (arrs s data)),
        nxt := Suc (nxt s)\<rparr>)"
  by (simp add: performDeclustering_def array_copy_def array_sort_by_time_def Let_def)

lemma sort_key_Nil_iff: "sort_key f xs = [] \<longleftrightarrow> xs = []"
  by (metis length_sort length_0_conv)

lemma line_store_array: "arrs (line_store n) 0 = [0..<n]"
  by (simp add: line_store_def)

text \<open>
  C2. For a non-empty catalog and each of the four strategies, \<open>performDeclustering\<close>
  returns a result with at least one mainshock; and where the strategy found none, the
  fallback makes the mainshocks the single event of the largest magnitude in the catalog.
\<close>

theorem declustering_has_mainshock:
  assumes "arrs s data \<noteq> []"
    and "subType \<in> {''DBSCAN'', ''NND Algorithm'', ''Gruenthal Declustering Algorithm'',
                       ''Reasenberg Algorithm''}"
  shows "(\<exists>result. fst (performDeclustering s subType data rnd) = Inr result
            \<and> decl_mainshocks result \<noteq> [])
       \<and> (\<exists>m. with_fallback (objs s) (sort_key (\<lambda>event. time (objs s event)) (arrs s data)) [] = [m]
            \<and> m \<in> set (arrs s data)
            \<and> (\<forall>e \<in> set (arrs s data). magnitude (objs s e) \<le> magnitude (objs s m)))"
proof -
  let ?sorted = "sort_key (\<lambda>event. time (objs s event)) (arrs s data)"
  have ne: "?sorted \<noteq> []" using assms(1) by (simp add: sort_key_Nil_iff)
  from declustering_body_mainshocks [OF ne assms(2)] have a:
    "\<exists>result. fst (performDeclustering s subType data rnd) = Inr result
            \<and> decl_mainshocks result \<noteq> []"
    by (simp add: sorted_array)
  from with_fallback_Nil [OF ne, of "objs s"] have b:
    "\<exists>m. with_fallback (objs s) ?sorted [] = [m]
            \<and> m \<in> set (arrs s data)
            \<and> (\<forall>e \<in> set (arrs s data). magnitude (objs s e) \<le> magnitude (objs s m))"
    by simp
  from a b show ?thesis by blast
qed

theorem declustering_has_mainshock_witness:
  "arrs (line_store 3) 0 \<noteq> []
   \<and> ''NND Algorithm'' \<in> {''DBSCAN'', ''NND Algorithm'', ''Gruenthal Declustering Algorithm'',
                       ''Reasenberg Algorithm''}
   \<and> (\<exists>result. fst (performDeclustering (line_store 3) ''NND Algorithm'' 0 rnd_zero) = Inr result
            \<and> decl_mainshocks result \<noteq> [])
   \<and> (\<exists>m. with_fallback (objs (line_store 3))
              (sort_key (\<lambda>event. time (objs (line_store 3) event)) (arrs (line_store 3) 0)) [] = [m]
            \<and> m \<in> set (arrs (line_store 3) 0)
            \<and> (\<forall>e \<in> set (arrs (line_store 3) 0).
                  magnitude (objs (line_store 3) e) \<le> magnitude (objs (line_store 3) m)))"
proof -
  have ne: "arrs (line_store 3) 0 \<noteq> []"
    by (simp add: line_store_array upt_rec)
  have st: "''NND Algorithm'' \<in> {''DBSCAN'', ''NND Algorithm'',
      ''Gruenthal Declustering Algorithm'', ''Reasenberg Algorithm''}"
    by simp
  from declustering_has_mainshock [OF ne st, of rnd_zero] ne st show ?thesis
    by blast
qed

text \<open>
  C7. On an empty catalog \<open>performDeclustering\<close> fails, whatever the algorithm name,
  with the error \<^verbatim>\<open>No data available for declustering analysis\<close>; no result
  record is produced.
\<close>

theorem empty_catalog_fails:
  assumes "arrs s data = []"
  shows "fst (performDeclustering s subType data rnd)
           = Inl (Error ''No data available for declustering analysis'')"
  using assms by (simp add: sorted_array declustering_body_def)

theorem empty_catalog_fails_witness:
  "arrs (line_store 0) 0 = []
   \<and> fst (performDeclustering (line_store 0) ''DBSCAN'' 0 rnd_zero)
       = Inl (Error ''No data available for declustering analysis'')"
proof -
  have e: "arrs (line_store 0) 0 = []"
    by (simp add: line_store_array)
  from empty_catalog_fails [OF e, of "''DBSCAN''" rnd_zero] e show ?thesis
    by simp
qed

section \<open>Clusters of DBSCAN\<close>

lemma dbscan_loop_seeded:
  assumes "set rest \<subseteq> set points"
    and "list_all (seeded h eps minPts points) Cs"
    and "dbscan_loop h eps minPts points rest (V, Cs, N) = (V', Cs', N')"
  shows "list_all (seeded h eps minPts points) Cs'"
  using assms
proof (induction rest arbitrary: V Cs N)
  case Nil
  then show ?case by simp
next
  case (Cons p rest)
  from Cons.prems(1) have sub: "set rest \<subseteq> set points" and p: "p \<in> set points"
    by auto
  show ?case
  proof (cases "p \<in> V")
    case True
    with Cons.prems(3) have "dbscan_loop h eps minPts points rest (V, Cs, N) = (V', Cs', N')"
      by simp
    from Cons.IH [OF sub Cons.prems(2) this] show ?thesis .
  next
    case False
    show ?thesis
    proof (cases "length (getNeighbors h eps p points) < minPts")
      case True
      with False Cons.prems(3)
      have "dbscan_loop h eps minPts points rest (insert p V, Cs, N @ [p]) = (V', Cs', N')"
        by simp
      from Cons.IH [OF sub Cons.prems(2) this] show ?thesis .
    next
      case dense: False
      obtain V2 C where ex: "expand h eps minPts points (getNeighbors h eps p points)
                (insert p V) [p] = (V2, C)"
        by (cases "expand h eps minPts points (getNeighbors h eps p points) (insert p V) [p]")
      with False dense Cons.prems(3)
      have run: "dbscan_loop h eps minPts points rest (V2, Cs @ [C], N) = (V', Cs', N')"
        by simp
      from expand_props [OF ex] obtain added where "C = [p] @ added" by blast
      with p dense have "seeded h eps minPts points C"
        by (simp add: seeded_def)
      with Cons.prems(2) have "list_all (seeded h eps minPts points) (Cs @ [C])"
        by simp
      from Cons.IH [OF sub this run] show ?thesis .
    qed
  qed
qed

lemma dbscan_seeded_all:
  assumes "dbscan h points eps minPts = (cls, noise)"
  shows "list_all (seeded h eps minPts points) cls"
proof -
  obtain V where "dbscan_loop h eps minPts points points ({}, [], []) = (V, cls, noise)"
    using assms by (auto simp: dbscan_def split: prod.splits)
  from dbscan_loop_seeded [OF _ _ this] show ?thesis by simp
qed

text \<open>
  C3, as the code has it. Every cluster that \<open>dbscan\<close> returns starts with its seed, an
  event of the catalog with at least \<open>minPts\<close> events within \<open>eps\<close>; so no cluster
  is empty. The members are the seed and the events reached from it that no earlier step
  had visited, which can be fewer than \<open>minPts\<close>.
\<close>

theorem dbscan_clusters_seeded:
  assumes "dbscan h points eps minPts = (cls, noise)" and "cluster \<in> set cls"
  shows "\<exists>seed members. cluster = seed # members \<and> seed \<in> set points
           \<and> minPts \<le> length (getNeighbors h eps seed points)"
proof -
  from dbscan_seeded_all [OF assms(1)] assms(2)
  have "seeded h eps minPts points cluster"
    by (simp add: list_all_iff)
  then show ?thesis
    by (cases cluster) (auto simp: seeded_def)
qed

lemma distance_line: "distance line_objs a b = \<bar>0.4 * real a - 0.4 * real b\<bar>"
  by (simp add: distance_def line_objs_def quake_def)

lemma neighbours_line3:
  "getNeighbors line_objs (1/2) 0 [0, Suc 0, 2] = [0, Suc 0]"
  "getNeighbors line_objs (1/2) (Suc 0) [0, Suc 0, 2] = [0, Suc 0, 2]"
  "getNeighbors line_objs (1/2) 2 [0, Suc 0, 2] = [Suc 0, 2]"
  by (simp_all add: getNeighbors_def distance_line)

lemma dbscan_line3: "dbscan line_objs [0, 1, 2] (1/2) 3 = ([[1, 2]], [0])"
  by (simp add: dbscan_def neighbours_line3)

text \<open>
  C3, as stated, fails: of three events on a line, 0.4 degrees apart, the first is noise
  (two neighbours), the second seeds a cluster (three neighbours) and the cluster gets
  the second and the third only, two members for \<open>minPts = 3\<close>.
\<close>

theorem dbscan_small_cluster:
  "fst (dbscan line_objs [0, 1, 2] (1/2) 3) = [[1, 2]] \<and> length [1, 2 :: ref] < 3"
  unfolding dbscan_line3 by simp

theorem dbscan_clusters_seeded_witness:
  "dbscan line_objs [0, 1, 2] (1/2) 3 = ([[1, 2]], [0]) \<and> [1, 2] \<in> set [[1, 2 :: ref]]
   \<and> (\<exists>seed members. [1, 2] = seed # members \<and> seed \<in> set [0, 1, 2]
           \<and> 3 \<le> length (getNeighbors line_objs (1/2) seed [0, 1, 2]))"
proof -
  have m: "[1, 2] \<in> set [[1, 2 :: ref]]" by simp
  from dbscan_clusters_seeded [OF dbscan_line3 m] dbscan_line3 m show ?thesis
    by blast
qed

section \<open>The clusters of k-means\<close>

lemma nearest_fold_index:
  "snd (foldl (\<lambda>(minDist, clusterIndex) (i, centroid).
                   case centroid of
                     None \<Rightarrow> (minDist, clusterIndex)
                   | Some c \<Rightarrow>
                       (let dist = distance h point c
                        in if less_ext dist minDist then (Fin dist, i)
                           else (minDist, clusterIndex)))
            (m, j) ics) \<in> insert j (fst ` set ics)"
proof (induction ics arbitrary: m j)
  case Nil
  then show ?case by simp
next
  case (Cons ic ics)
  obtain i centroid where ic: "ic = (i, centroid)" by (cases ic)
  show ?case
  proof (cases centroid)
    case None
    with ic Cons.IH [of m j] show ?thesis by auto
  next
    case (Some c)
    show ?thesis
    proof (cases "less_ext (distance h point c) m")
      case True
      with ic Some Cons.IH [of "Fin (distance h point c)" i] show ?thesis
        by (auto simp: Let_def)
    next
      case False
      with ic Some Cons.IH [of m j] show ?thesis
        by (auto simp: Let_def)
    qed
  qed
qed

lemma nearest_less: "0 < length centroids \<Longrightarrow> nearest h centroids point < length centroids"
proof -
  assume k: "0 < length centroids"
  have "nearest h centroids point
      \<in> insert 0 (fst ` set (zip [0..<length centroids] centroids))"
    unfolding nearest_def by (rule nearest_fold_index)
  moreover have "fst ` set (zip [0..<length centroids] centroids) \<subseteq> {0..<length centroids}"
    by (auto dest: set_zip_leftD)
  ultimately show ?thesis using k by auto
qed

lemma mset_concat_push:
  "i < length cls \<Longrightarrow> mset (concat (cls[i := cls ! i @ [p]])) = add_mset p (mset (concat cls))"
proof (induction cls arbitrary: i)
  case Nil
  then show ?case by simp
next
  case (Cons c cls)
  then show ?case by (cases i) auto
qed

lemma assign_props:
  assumes "0 < length centroids" "length clusters = length centroids"
  shows "\<exists>cls. assign h centroids points clusters = Inr cls
           \<and> length cls = length clusters
           \<and> mset (concat cls) = mset (concat clusters) + mset points"
  using assms
proof (induction points arbitrary: clusters)
  case Nil
  then show ?case by simp
next
  case (Cons p points)
  let ?i = "nearest h centroids p"
  let ?cls = "clusters[?i := clusters ! ?i @ [p]]"
  have i: "?i < length clusters"
    using nearest_less [OF Cons.prems(1)] Cons.prems(2) by simp
  have len: "length ?cls = length centroids" using Cons.prems(2) by simp
  from Cons.IH [OF Cons.prems(1) len]
  obtain cls where r: "assign h centroids points ?cls = Inr cls"
    and l: "length cls = length ?cls"
    and m: "mset (concat cls) = mset (concat ?cls) + mset points"
    by blast
  have "assign h centroids (p # points) clusters = Inr cls"
    using i r by (simp add: Let_def)
  moreover have "mset (concat cls) = mset (concat clusters) + mset (p # points)"
    using m mset_concat_push [OF i] by simp
  moreover have "length cls = length clusters" using l by simp
  ultimately show ?case by blast
qed

lemma concat_replicate_Nil: "concat (replicate k []) = []"
  by (induction k) auto

lemma kmeans_loop_props:
  assumes "0 < k" "length centroids = k"
  shows "\<exists>cls s'. kmeans_loop n s points k centroids clusters = (Inr cls, s')
           \<and> (length clusters = k \<longrightarrow> length cls = k)
           \<and> (0 < n \<longrightarrow> length cls = k \<and> mset (concat cls) = mset points)
           \<and> (mset (concat clusters) = mset points \<longrightarrow> mset (concat cls) = mset points)"
  using assms
proof (induction n arbitrary: s clusters)
  case 0
  then show ?case by simp
next
  case (Suc n)
  have "0 < length centroids" "length (replicate k ([]::ref list)) = length centroids"
    using Suc.prems by auto
  from assign_props [OF this, of "objs s" points]
  obtain cls where a: "assign (objs s) centroids points (replicate k []) = Inr cls"
    and l: "length cls = k"
    and m: "mset (concat cls) = mset points"
    by (auto simp: concat_replicate_Nil)
  obtain s1 changed where u: "update_centroids s (zip centroids cls) False = (s1, changed)"
    by (cases "update_centroids s (zip centroids cls) False")
  show ?case
  proof (cases changed)
    case False
    with a u l m show ?thesis by simp
  next
    case True
    from Suc.IH [OF Suc.prems, of s1 cls]
    obtain cls' s' where r: "kmeans_loop n s1 points k centroids cls = (Inr cls', s')"
      and l': "length cls' = k" and m': "mset (concat cls') = mset points"
      using l m by blast
    from a u True r have "kmeans_loop (Suc n) s points k centroids clusters = (Inr cls', s')"
      by simp
    with l' m' show ?thesis by simp
  qed
qed

lemma length_init_centroids:
  "init_centroids s points rnd is = (centroids, s') \<Longrightarrow> length centroids = length is"
  by (induction "is" arbitrary: s centroids s') (auto split: prod.splits)

lemma kmeans_clusters:
  assumes "0 < k"
  shows "\<exists>cls centroids s'. kmeans s points k maxIterations rnd = (Inr (cls, centroids), s')
           \<and> length cls = k \<and> length centroids = k
           \<and> (0 < maxIterations \<longrightarrow> mset (concat cls) = mset points)"
proof -
  obtain centroids s1 where i: "init_centroids s points rnd [0..<k] = (centroids, s1)"
    by (cases "init_centroids s points rnd [0..<k]")
  then have lc: "length centroids = k"
    using length_init_centroids by fastforce
  from kmeans_loop_props [OF assms lc, of maxIterations s1 points "replicate k []"]
  obtain cls s' where
    r: "kmeans_loop maxIterations s1 points k centroids (replicate k []) = (Inr cls, s')"
    and l: "length cls = k"
    and m: "0 < maxIterations \<longrightarrow> mset (concat cls) = mset points"
    by auto
  from i r have "kmeans s points k maxIterations rnd = (Inr (cls, centroids), s')"
    by (simp add: kmeans_def)
  with l lc m show ?thesis by blast
qed

text \<open>
  C8. \<open>fuzzyKmeans\<close> is \<open>kmeans\<close> with the default ten iterations: the same clusters,
  centroids and store for the same random choices. For \<open>k > 0\<close> the assignment is hard:
  the clusters together hold every point exactly once.
\<close>

theorem fuzzy_is_kmeans:
  "fuzzyKmeans s points k rnd = kmeans s points k 10 rnd
   \<and> (0 < k \<longrightarrow>
        (\<exists>cls centroids s'. fuzzyKmeans s points k rnd = (Inr (cls, centroids), s')
           \<and> mset (concat cls) = mset points))"
proof -
  have "\<exists>cls centroids s'. fuzzyKmeans s points k rnd = (Inr (cls, centroids), s')
           \<and> mset (concat cls) = mset points" if "0 < k"
    using kmeans_clusters [OF that, of s points 10 rnd] by (auto simp: fuzzyKmeans_def)
  then show ?thesis by (simp add: fuzzyKmeans_def)
qed

theorem fuzzy_is_kmeans_witness:
  "fuzzyKmeans single_store [0] 4 rnd_zero = kmeans single_store [0] 4 10 rnd_zero
   \<and> 0 < (4::nat)
   \<and> (\<exists>cls centroids s'. fuzzyKmeans single_store [0] 4 rnd_zero = (Inr (cls, centroids), s')
           \<and> mset (concat cls) = mset [0])"
proof -
  have k: "0 < (4::nat)" by simp
  from fuzzy_is_kmeans [of single_store "[0]" 4 rnd_zero] k show ?thesis
    by blast
qed

lemma length_processedClusters: "map cluster_events (processedClusters h cls) = cls"
proof -
  have "map cluster_events (map (\<lambda>(i, cluster). processCluster h i cluster) (zip is cls)) = cls"
    if "length is = length cls" for "is"
    using that by (induction "is" cls rule: list_induct2) (auto simp: processCluster_def)
  then show ?thesis by (simp add: processedClusters_def)
qed

text \<open>
  C9. For \<open>k > 0\<close>, any catalog (also an empty one, or one with fewer than \<open>k\<close>
  events), any number of iterations and any random choices, \<open>kmeans\<close> returns exactly
  \<open>k\<close> clusters; and \<open>performClustering\<close> with \<^verbatim>\<open>K-means\<close> builds one record per
  cluster of the four, empty clusters included.
\<close>

theorem kmeans_keeps_k_clusters:
  assumes "0 < k"
  shows "(\<exists>cls centroids s'. kmeans s points k maxIterations rnd = (Inr (cls, centroids), s')
            \<and> length cls = k)
       \<and> (\<exists>cls centroids result s'.
             kmeans s (arrs s data) 4 10 rnd = (Inr (cls, centroids), s')
             \<and> performClustering s ''K-means'' data rnd = (Inr result, s')
             \<and> length cls = 4
             \<and> map cluster_events (res_clusters result) = cls)"
proof -
  from kmeans_clusters [OF assms, of s points maxIterations rnd]
  have a: "\<exists>cls centroids s'. kmeans s points k maxIterations rnd = (Inr (cls, centroids), s')
            \<and> length cls = k"
    by blast
  have "0 < (4::nat)" by simp
  from kmeans_clusters [OF this, of s "arrs s data" 10 rnd]
  obtain cls centroids s' where k: "kmeans s (arrs s data) 4 10 rnd = (Inr (cls, centroids), s')"
    and l: "length cls = 4"
    by blast
  have "performClustering s ''K-means'' data rnd
      = (Inr (clustering_record (objs s') ''K-means'' ''kmeans'' cls (\<lambda>i. rnd (4 + i))), s')"
    using k by (simp add: performClustering_def cluster_dispatch_def)
  moreover have "map cluster_events
      (res_clusters (clustering_record (objs s') ''K-means'' ''kmeans'' cls (\<lambda>i. rnd (4 + i)))) = cls"
    by (simp add: clustering_record_def Let_def length_processedClusters)
  ultimately show ?thesis using a k l by blast
qed

theorem kmeans_keeps_k_clusters_witness:
  "0 < (4::nat)
   \<and> (\<exists>cls centroids s'. kmeans single_store [] 4 10 rnd_zero = (Inr (cls, centroids), s')
            \<and> length cls = 4)
   \<and> (\<exists>cls centroids result s'.
             kmeans single_store (arrs single_store 1) 4 10 rnd_zero = (Inr (cls, centroids), s')
             \<and> performClustering single_store ''K-means'' 1 rnd_zero = (Inr result, s')
             \<and> length cls = 4
             \<and> map cluster_events (res_clusters result) = cls)"
proof -
  have k: "0 < (4::nat)" by simp
  from kmeans_keeps_k_clusters [OF k, of single_store "[]" 10 rnd_zero 1] k show ?thesis
    by blast
qed

section \<open>k-means on a catalog of one event\<close>

lemma upt_4: "[0..<4] = [0, 1, 2, 3]"
  by (simp add: upt_rec)

lemma init_single:
  "init_centroids single_store [0] rnd_zero [0, 1, 2, 3]
     = ([Some 2, Some 3, Some 4, Some 5], single_seeded)"
  by (simp add: sample_centroid_def single_store_def single_seeded_def rnd_zero_def)

lemma distance_single: "c \<in> {2, 3, 4, 5} \<Longrightarrow> distance (objs single_seeded) 0 c = 0"
  by (auto simp: distance_def single_seeded_def)

lemma nearest_single:
  "nearest (objs single_seeded) [Some 2, Some 3, Some 4, Some 5] 0 = 0"
proof -
  have "[0..<length [Some (2::ref), Some 3, Some 4, Some 5]] = [0, 1, 2, 3]"
    by (simp add: upt_rec)
  then show ?thesis
    by (simp add: nearest_def distance_single)
qed

lemma assign_single:
  "assign (objs single_seeded) [Some 2, Some 3, Some 4, Some 5] [0] [[], [], [], []]
     = Inr [[0], [], [], []]"
  by (simp add: nearest_single)

lemma update_single:
  "update_centroids single_seeded
      [(Some 2, [0]), (Some 3, []), (Some 4, []), (Some 5, [])] False = (single_seeded, False)"
  by (simp add: sum_field_def single_seeded_def)

lemma loop_single:
  "kmeans_loop (Suc n) single_seeded [0] 4 [Some 2, Some 3, Some 4, Some 5] cls
     = (Inr [[0], [], [], []], single_seeded)"
proof -
  have r: "replicate 4 ([]::ref list) = [[], [], [], []]"
    by (simp add: numeral_eq_Suc)
  show ?thesis
    unfolding kmeans_loop.simps r assign_single
    by (simp del: update_centroids.simps add: update_single)
qed

lemma kmeans_single:
  "kmeans single_store [0] 4 10 rnd_zero
     = (Inr ([[0], [], [], []], [Some 2, Some 3, Some 4, Some 5]), single_seeded)"
proof -
  have "kmeans_loop (Suc 9) single_seeded [0] 4 [Some 2, Some 3, Some 4, Some 5] (replicate 4 [])
      = (Inr [[0], [], [], []], single_seeded)"
    by (rule loop_single)
  then have "kmeans_loop 10 single_seeded [0] 4 [Some 2, Some 3, Some 4, Some 5] (replicate 4 [])
      = (Inr [[0], [], [], []], single_seeded)"
    by simp
  then show ?thesis
    unfolding kmeans_def upt_4 init_single by simp
qed

lemma clustering_single:
  "performClustering single_store ''K-means'' 1 rnd_zero
     = (Inr (clustering_record (objs single_seeded) ''K-means'' ''kmeans'' [[0], [], [], []]
               (\<lambda>i. rnd_zero (4 + i))), single_seeded)"
proof -
  have "arrs single_store 1 = [0]" by (simp add: single_store_def)
  then show ?thesis
    by (simp add: performClustering_def cluster_dispatch_def kmeans_single)
qed

lemma upt_4_Suc: "[0..<Suc (Suc (Suc (Suc 0)))] = [0, 1, 2, 3]"
  by (simp add: upt_rec)

text \<open>
  C4 fails on the code. With one event and \<open>k = 4\<close> all four centroids are copies of
  that event, the event goes to the first cluster (ties go to the first centroid), and the
  other three clusters stay empty. Lines 859-862 divide their sums by \<open>cluster.length = 0\<close>:
  the means and centroid coordinates of the empty clusters are \<^verbatim>\<open>NaN\<close>, and so is
  their spread.
\<close>

theorem empty_cluster_means:
  "\<exists>result. fst (performClustering single_store ''K-means'' 1 rnd_zero) = Inr result
      \<and> map avgMagnitude (res_clusters result) = [Some 3, None, None, None]
      \<and> map centroidLat (res_clusters result) = [Some 0, None, None, None]
      \<and> map snd (res_clusterSpread result) = [Some 0, None, None, None]"
  unfolding clustering_single
  by (simp add: clustering_record_def processedClusters_def processCluster_def upt_4_Suc
        js_div_def sum_field_def single_seeded_def line_objs_def quake_def spread_def Let_def
        num_div_def num_add_def num_dist_def num_sub_def)

section \<open>What the analysis writes\<close>

lemma frame_refl: "frame s s"
  by (simp add: frame_def)

lemma frame_trans: "frame s s1 \<Longrightarrow> frame s1 s2 \<Longrightarrow> frame s s2"
  by (auto simp: frame_def)

lemma sample_centroid_frame:
  assumes "sample_centroid s points r = (c, s')"
  shows "frame s s' \<and> fresh_from (nxt s) [c]"
  using assms
  by (auto simp: sample_centroid_def Let_def frame_def fresh_from_def split: if_splits)

lemma fresh_from_mono: "n \<le> m \<Longrightarrow> fresh_from m cs \<Longrightarrow> fresh_from n cs"
  by (induction cs) (auto simp: fresh_from_def split: option.splits)

lemma init_centroids_frame:
  assumes "init_centroids s points rnd is = (centroids, s')"
  shows "frame s s' \<and> fresh_from (nxt s) centroids"
  using assms
proof (induction "is" arbitrary: s centroids s')
  case Nil
  then show ?case by (simp add: frame_refl fresh_from_def)
next
  case (Cons i rest)
  obtain c s1 where a: "sample_centroid s points (rnd i) = (c, s1)"
    by (cases "sample_centroid s points (rnd i)")
  obtain cs s2 where b: "init_centroids s1 points rnd rest = (cs, s2)"
    by (cases "init_centroids s1 points rnd rest")
  from a b Cons.prems have eq: "centroids = c # cs" "s' = s2" by auto
  from sample_centroid_frame [OF a] have f1: "frame s s1" and c1: "fresh_from (nxt s) [c]"
    by auto
  from Cons.IH [OF b] have f2: "frame s1 s2" and c2: "fresh_from (nxt s1) cs"
    by auto
  have "nxt s \<le> nxt s1" using f1 by (simp add: frame_def)
  from fresh_from_mono [OF this c2] c1 have "fresh_from (nxt s) (c # cs)"
    by (simp add: fresh_from_def)
  with frame_trans [OF f1 f2] eq show ?case by simp
qed

lemma update_centroids_frame:
  assumes "update_centroids s zs changed = (s', changed')"
    and "fresh_from n (map fst zs)"
  shows "arrs s' = arrs s \<and> nxt s' = nxt s \<and> (\<forall>e < n. objs s' e = objs s e)"
  using assms
proof (induction s zs changed rule: update_centroids.induct)
  case (1 s changed)
  then show ?case by simp
next
  case (2 s centroid cluster rest changed)
  from "2.prems"(2) have fr: "fresh_from n (map fst rest)"
    by (simp add: fresh_from_def)
  show ?case
  proof (cases "cluster = []")
    case True
    with "2.prems"(1) have "update_centroids s rest changed = (s', changed')" by simp
    from "2.IH"(1) [OF True this fr] show ?thesis .
  next
    case ne: False
    show ?thesis
    proof (cases centroid)
      case None
      with ne "2.prems"(1) have "update_centroids s rest changed = (s', changed')" by simp
      from "2.IH"(2) [OF ne None this fr] show ?thesis .
    next
      case (Some c)
      from "2.prems"(2) Some have c: "n \<le> c" by (simp add: fresh_from_def)
      let ?newLat = "sum_field (objs s) latitude cluster / real (length cluster)"
      let ?newLng = "sum_field (objs s) longitude cluster / real (length cluster)"
      let ?moved = "\<bar>latitude (objs s c) - ?newLat\<bar> > 0.0001
                    \<or> \<bar>longitude (objs s c) - ?newLng\<bar> > 0.0001"
      let ?s = "s\<lparr>objs := (objs s)
                             (c := (objs s c)\<lparr>latitude := ?newLat, longitude := ?newLng\<rparr>)\<rparr>"
      show ?thesis
      proof (cases ?moved)
        case True
        with ne Some "2.prems"(1) have r: "update_centroids ?s rest True = (s', changed')"
          by (simp add: Let_def)
        from "2.IH"(3) [OF ne Some refl refl True r fr]
        have "arrs s' = arrs ?s \<and> nxt s' = nxt ?s \<and> (\<forall>e<n. objs s' e = objs ?s e)" .
        with c show ?thesis by auto
      next
        case False
        with ne Some "2.prems"(1) have r: "update_centroids s rest changed = (s', changed')"
          by (simp add: Let_def)
        from "2.IH"(4) [OF ne Some refl refl False r fr] show ?thesis .
      qed
    qed
  qed
qed


lemma fresh_from_zip: "fresh_from n centroids \<Longrightarrow> fresh_from n (map fst (zip centroids cls))"
  unfolding fresh_from_def list_all_iff by (auto dest: set_zip_leftD)

lemma kmeans_loop_frame:
  assumes "kmeans_loop m s points k centroids clusters = (r, s')"
    and "fresh_from n centroids"
  shows "arrs s' = arrs s \<and> nxt s' = nxt s \<and> (\<forall>e < n. objs s' e = objs s e)"
  using assms
proof (induction m arbitrary: s clusters)
  case 0
  then show ?case by simp
next
  case (Suc m)
  show ?case
  proof (cases "assign (objs s) centroids points (replicate k [])")
    case (Inl e)
    with Suc.prems(1) show ?thesis by simp
  next
    case (Inr cls)
    obtain s1 changed where u: "update_centroids s (zip centroids cls) False = (s1, changed)"
      by (cases "update_centroids s (zip centroids cls) False")
    from update_centroids_frame [OF u fresh_from_zip [OF Suc.prems(2)]]
    have f1: "arrs s1 = arrs s \<and> nxt s1 = nxt s \<and> (\<forall>e < n. objs s1 e = objs s e)" .
    show ?thesis
    proof (cases changed)
      case True
      with Inr u Suc.prems(1) have "kmeans_loop m s1 points k centroids cls = (r, s')"
        by simp
      from Suc.IH [OF this Suc.prems(2)] f1 show ?thesis by simp
    next
      case False
      with Inr u Suc.prems(1) have "s' = s1" by simp
      with f1 show ?thesis by simp
    qed
  qed
qed

lemma kmeans_frame: "frame s (snd (kmeans s points k maxIterations rnd))"
proof -
  obtain centroids s1 where i: "init_centroids s points rnd [0..<k] = (centroids, s1)"
    by (cases "init_centroids s points rnd [0..<k]")
  obtain r s2 where l: "kmeans_loop maxIterations s1 points k centroids (replicate k []) = (r, s2)"
    by (cases "kmeans_loop maxIterations s1 points k centroids (replicate k [])")
  from init_centroids_frame [OF i] have f1: "frame s s1" and fr: "fresh_from (nxt s) centroids"
    by auto
  from kmeans_loop_frame [OF l fr]
  have "arrs s2 = arrs s1 \<and> nxt s2 = nxt s1 \<and> (\<forall>e < nxt s. objs s2 e = objs s1 e)" .
  with f1 have "frame s s2" by (auto simp: frame_def)
  moreover have "snd (kmeans s points k maxIterations rnd) = s2"
    using i l by (cases r) (auto simp: kmeans_def)
  ultimately show ?thesis by simp
qed

lemma cluster_dispatch_frame: "frame s (snd (cluster_dispatch s subType points rnd))"
proof -
  have k: "frame s (snd (kmeans s points 4 10 rnd))" by (rule kmeans_frame)
  show ?thesis
    using k frame_refl [of s]
    by (auto simp: cluster_dispatch_def fuzzyKmeans_def split: prod.splits sum.splits)
qed

lemma performClustering_frame: "frame s (snd (performClustering s subType data rnd))"
proof -
  have "snd (performClustering s subType data rnd)
      = snd (cluster_dispatch s subType (arrs s data) rnd)"
    by (auto simp: performClustering_def split: prod.splits sum.splits)
  then show ?thesis by (simp add: cluster_dispatch_frame)
qed

lemma performDeclustering_frame: "frame s (snd (performDeclustering s subType data rnd))"
  by (simp add: sorted_array frame_def)

text \<open>
  C10. For an input array and input events that are allocated in the store,
  \<open>performDeclustering\<close> and \<open>performClustering\<close> (for every \<open>subType\<close>) and
  \<open>kmeans\<close> leave the array and every field of every input event as they were: the sort
  is on a new array, and the centroids that k-means moves are new objects.
\<close>

theorem inputs_not_mutated:
  assumes "data < nxt s" and "\<forall>event \<in> set (arrs s data). event < nxt s"
  shows "arrs (snd (performDeclustering s subType data rnd)) data = arrs s data
       \<and> (\<forall>event \<in> set (arrs s data).
             objs (snd (performDeclustering s subType data rnd)) event = objs s event)
       \<and> arrs (snd (performClustering s subType data rnd)) data = arrs s data
       \<and> (\<forall>event \<in> set (arrs s data).
             objs (snd (performClustering s subType data rnd)) event = objs s event)
       \<and> (\<forall>event \<in> set (arrs s data).
             objs (snd (kmeans s (arrs s data) k maxIterations rnd)) event = objs s event)"
  using assms performDeclustering_frame [of s subType data rnd]
    performClustering_frame [of s subType data rnd]
    kmeans_frame [of s "arrs s data" k maxIterations rnd]
  unfolding frame_def by auto

theorem inputs_not_mutated_witness:
  "(1::ref) < nxt single_store \<and> arrs single_store 1 = [0]
   \<and> arrs (snd (performDeclustering single_store ''DBSCAN'' 1 rnd_zero)) 1 = [0]
   \<and> objs (snd (performDeclustering single_store ''DBSCAN'' 1 rnd_zero)) 0 = objs single_store 0
   \<and> arrs (snd (performClustering single_store ''DBSCAN'' 1 rnd_zero)) 1 = [0]
   \<and> objs (snd (performClustering single_store ''DBSCAN'' 1 rnd_zero)) 0 = objs single_store 0
   \<and> objs (snd (kmeans single_store [0] 4 10 rnd_zero)) 0 = objs single_store 0"
proof -
  have a: "(1::ref) < nxt single_store" by (simp add: single_store_def)
  have c: "arrs single_store 1 = [0]" by (simp add: single_store_def)
  have b: "\<forall>event \<in> set (arrs single_store 1). event < nxt single_store"
    by (simp add: single_store_def)
  from inputs_not_mutated [OF a b, of "''DBSCAN''" rnd_zero 4 10] a c show ?thesis
    by simp
qed

section \<open>Repeated runs\<close>

lemma clustering_dbscan:
  "performClustering s ''DBSCAN'' data rnd
     = (Inr (clustering_record (objs s) ''DBSCAN'' ''dbscan''
               (fst (dbscan (objs s) (arrs s data) 0.5 3)) rnd), s)"
  by (simp add: performClustering_def cluster_dispatch_def split: prod.splits)

lemma clustering_record_random:
  "clustering_record h subType name cls rnd2
     = (clustering_record h subType name cls rnd1)
         \<lparr>res_validityMetrics := res_validityMetrics (clustering_record h subType name cls rnd2)\<rparr>"
  by (simp add: clustering_record_def Let_def)

lemma declustering_body_random:
  assumes "declustering_body h subType sortedData rnd1 = Inr d1"
  shows "\<exists>d2. declustering_body h subType sortedData rnd2 = Inr d2
           \<and> d2 = d1\<lparr>beforeDeclustering :=
                        (beforeDeclustering d1)\<lparr>stat_bValue := stat_bValue (beforeDeclustering d2)\<rparr>,
                      afterDeclustering :=
                        (afterDeclustering d1)\<lparr>stat_bValue := stat_bValue (afterDeclustering d2)\<rparr>,
                      decl_validityMetrics := decl_validityMetrics d2\<rparr>"
proof (cases sortedData)
  case Nil
  with assms show ?thesis by (simp add: declustering_body_def)
next
  case (Cons first rest)
  show ?thesis
  proof (cases "decluster_dispatch h subType sortedData")
    case (Inl e)
    with Cons assms show ?thesis by (simp add: declustering_body_def)
  next
    case (Inr r)
    obtain found afters name where r: "r = ((found, afters), name)"
      by (cases r) auto
    from Cons Inr r assms show ?thesis
      by (auto simp: declustering_body_def Let_def beforeStats_def afterStats_def)
  qed
qed

lemma declustering_error_random:
  "declustering_body h subType sortedData rnd1 = Inl e
   \<Longrightarrow> declustering_body h subType sortedData rnd2 = Inl e"
  by (auto simp: declustering_body_def Let_def split: list.splits sum.splits prod.splits)

text \<open>
  C6, as the code has it. Two runs on the same non-empty catalog, with any two random
  sources, leave the same store and return records that agree in every field that is not
  drawn from \<^verbatim>\<open>Math.random()\<close>: for DBSCAN clustering all but \<open>validityMetrics\<close>
  (lines 877-879); for each declustering strategy all but the two \<open>bValue\<close> fields and
  \<open>validityMetrics\<close> (lines 1196, 1215, 1226-1228). The clusters, the partition and the
  other statistics are the same.
\<close>

theorem repeated_runs_agree:
  assumes "arrs s data \<noteq> []"
    and "subType \<in> {''DBSCAN'', ''NND Algorithm'', ''Gruenthal Declustering Algorithm'',
                       ''Reasenberg Algorithm''}"
  shows "\<exists>c1 c2 d1 d2.
           fst (performClustering s ''DBSCAN'' data rnd1) = Inr c1
         \<and> fst (performClustering s ''DBSCAN'' data rnd2) = Inr c2
         \<and> c2 = c1\<lparr>res_validityMetrics := res_validityMetrics c2\<rparr>
         \<and> fst (performDeclustering s subType data rnd1) = Inr d1
         \<and> fst (performDeclustering s subType data rnd2) = Inr d2
         \<and> d2 = d1\<lparr>beforeDeclustering :=
                      (beforeDeclustering d1)\<lparr>stat_bValue := stat_bValue (beforeDeclustering d2)\<rparr>,
                    afterDeclustering :=
                      (afterDeclustering d1)\<lparr>stat_bValue := stat_bValue (afterDeclustering d2)\<rparr>,
                    decl_validityMetrics := decl_validityMetrics d2\<rparr>
         \<and> snd (performClustering s ''DBSCAN'' data rnd1) = snd (performClustering s ''DBSCAN'' data rnd2)
         \<and> snd (performDeclustering s subType data rnd1) = snd (performDeclustering s subType data rnd2)"
proof -
  let ?sorted = "sort_key (\<lambda>event. time (objs s event)) (arrs s data)"
  have ne: "?sorted \<noteq> []" using assms(1) by (simp add: sort_key_Nil_iff)
  from declustering_body_mainshocks [OF ne assms(2), of "objs s" rnd1]
  obtain d1 where d1: "declustering_body (objs s) subType ?sorted rnd1 = Inr d1"
    by blast
  from declustering_body_random [OF d1, of rnd2]
  obtain d2 where d2: "declustering_body (objs s) subType ?sorted rnd2 = Inr d2"
    and eq: "d2 = d1\<lparr>beforeDeclustering :=
                      (beforeDeclustering d1)\<lparr>stat_bValue := stat_bValue (beforeDeclustering d2)\<rparr>,
                    afterDeclustering :=
                      (afterDeclustering d1)\<lparr>stat_bValue := stat_bValue (afterDeclustering d2)\<rparr>,
                    decl_validityMetrics := decl_validityMetrics d2\<rparr>"
    by blast
  let ?c = "\<lambda>rnd. clustering_record (objs s) ''DBSCAN'' ''dbscan''
               (fst (dbscan (objs s) (arrs s data) 0.5 3)) rnd"
  have c: "?c rnd2 = (?c rnd1)\<lparr>res_validityMetrics := res_validityMetrics (?c rnd2)\<rparr>"
    by (rule clustering_record_random)
  have "fst (performClustering s ''DBSCAN'' data rnd1) = Inr (?c rnd1)"
    "fst (performClustering s ''DBSCAN'' data rnd2) = Inr (?c rnd2)"
    "snd (performClustering s ''DBSCAN'' data rnd1) = snd (performClustering s ''DBSCAN'' data rnd2)"
    by (simp_all add: clustering_dbscan)
  moreover have "fst (performDeclustering s subType data rnd1) = Inr d1"
    "fst (performDeclustering s subType data rnd2) = Inr d2"
    "snd (performDeclustering s subType data rnd1) = snd (performDeclustering s subType data rnd2)"
    using d1 d2 by (simp_all add: sorted_array)
  ultimately show ?thesis using c eq by blast
qed

lemma line_store_3: "arrs (line_store 3) 0 \<noteq> []"
  by (simp add: line_store_array upt_rec)

theorem repeated_runs_agree_witness:
  "arrs (line_store 3) 0 \<noteq> []
   \<and> ''NND Algorithm'' \<in> {''DBSCAN'', ''NND Algorithm'', ''Gruenthal Declustering Algorithm'',
                       ''Reasenberg Algorithm''}
   \<and> (\<exists>c1 c2 d1 d2.
           fst (performClustering (line_store 3) ''DBSCAN'' 0 rnd_zero) = Inr c1
         \<and> fst (performClustering (line_store 3) ''DBSCAN'' 0 rnd_half) = Inr c2
         \<and> c2 = c1\<lparr>res_validityMetrics := res_validityMetrics c2\<rparr>
         \<and> fst (performDeclustering (line_store 3) ''NND Algorithm'' 0 rnd_zero) = Inr d1
         \<and> fst (performDeclustering (line_store 3) ''NND Algorithm'' 0 rnd_half) = Inr d2
         \<and> d2 = d1\<lparr>beforeDeclustering :=
                      (beforeDeclustering d1)\<lparr>stat_bValue := stat_bValue (beforeDeclustering d2)\<rparr>,
                    afterDeclustering :=
                      (afterDeclustering d1)\<lparr>stat_bValue := stat_bValue (afterDeclustering d2)\<rparr>,
                    decl_validityMetrics := decl_validityMetrics d2\<rparr>
         \<and> snd (performClustering (line_store 3) ''DBSCAN'' 0 rnd_zero)
             = snd (performClustering (line_store 3) ''DBSCAN'' 0 rnd_half)
         \<and> snd (performDeclustering (line_store 3) ''NND Algorithm'' 0 rnd_zero)
             = snd (performDeclustering (line_store 3) ''NND Algorithm'' 0 rnd_half))"
proof -
  have st: "''NND Algorithm'' \<in> {''DBSCAN'', ''NND Algorithm'',
      ''Gruenthal Declustering Algorithm'', ''Reasenberg Algorithm''}"
    by simp
  from repeated_runs_agree [OF line_store_3 st, of rnd_zero rnd_half] line_store_3 st
  show ?thesis by blast
qed

text \<open>
  C6, as stated, fails: the validity metrics are random numbers, so two runs on the same
  catalog return different records, for clustering and for declustering.
\<close>

theorem runs_differ:
  "fst (performClustering (line_store 3) ''DBSCAN'' 0 rnd_zero)
     \<noteq> fst (performClustering (line_store 3) ''DBSCAN'' 0 rnd_half)
   \<and> fst (performDeclustering (line_store 3) ''NND Algorithm'' 0 rnd_zero)
     \<noteq> fst (performDeclustering (line_store 3) ''NND Algorithm'' 0 rnd_half)"
proof
  let ?c = "\<lambda>rnd. clustering_record (objs (line_store 3)) ''DBSCAN'' ''dbscan''
               (fst (dbscan (objs (line_store 3)) (arrs (line_store 3) 0) 0.5 3)) rnd"
  have "silhouetteScore (res_validityMetrics (?c rnd_zero))
      \<noteq> silhouetteScore (res_validityMetrics (?c rnd_half))"
    by (simp add: clustering_record_def Let_def rnd_zero_def rnd_half_def)
  then have "?c rnd_zero \<noteq> ?c rnd_half" by auto
  then show "fst (performClustering (line_store 3) ''DBSCAN'' 0 rnd_zero)
     \<noteq> fst (performClustering (line_store 3) ''DBSCAN'' 0 rnd_half)"
    by (simp add: clustering_dbscan)
next
  let ?sorted = "sort_key (\<lambda>event. time (objs (line_store 3) event)) (arrs (line_store 3) 0)"
  have ne: "?sorted \<noteq> []" using line_store_3 by (simp add: sort_key_Nil_iff)
  have st: "''NND Algorithm'' \<in> {''DBSCAN'', ''NND Algorithm'',
      ''Gruenthal Declustering Algorithm'', ''Reasenberg Algorithm''}"
    by simp
  from declustering_body_mainshocks [OF ne st, of "objs (line_store 3)" rnd_zero]
  obtain d1 where d1: "declustering_body (objs (line_store 3)) ''NND Algorithm'' ?sorted rnd_zero = Inr d1"
    by blast
  from declustering_body_mainshocks [OF ne st, of "objs (line_store 3)" rnd_half]
  obtain d2 where d2: "declustering_body (objs (line_store 3)) ''NND Algorithm'' ?sorted rnd_half = Inr d2"
    by blast
  have g1: "goodnessOfFit (decl_validityMetrics d1) = 0.8"
    using d1 by (auto simp: declustering_body_def Let_def rnd_zero_def
        split: list.splits sum.splits prod.splits)
  have g2: "goodnessOfFit (decl_validityMetrics d2) = 0.875"
    using d2 by (auto simp: declustering_body_def Let_def rnd_half_def
        split: list.splits sum.splits prod.splits)
  from g1 g2 have "d1 \<noteq> d2" by auto
  with d1 d2 show "fst (performDeclustering (line_store 3) ''NND Algorithm'' 0 rnd_zero)
     \<noteq> fst (performDeclustering (line_store 3) ''NND Algorithm'' 0 rnd_half)"
    by (simp add: sorted_array)
qed

section \<open>The Omori estimator\<close>

lemma foldl_plus: "foldl (\<lambda>s x. s + f x) a xs = a + sum_list (map f xs)"
  by (induction xs arbitrary: a) (auto simp: algebra_simps)

lemma foldl_plus_id: "foldl (\<lambda>a b. a + b) (a::real) xs = a + sum_list xs"
  using foldl_plus [of "\<lambda>x. x" a xs] by simp

lemma foldl_plus_pair:
  "foldl (\<lambda>sum (x, y). sum + x * y) (a::real) (zip (map f bs) (map g bs))
     = a + sum_list (map (\<lambda>b. f b * g b) bs)"
  by (induction bs arbitrary: a) (auto simp: algebra_simps)

text \<open>The sums of the regression, for any list of bins.\<close>

lemma omori_p_sums:
  assumes "3 \<le> length bins"
  shows "fst (calculateOmoriParameters bins)
     = map_option uminus
         (js_div (real (length bins) * sum_list (map (\<lambda>b. logDay b * logCount b) bins)
                    - sum_list (map logDay bins) * sum_list (map logCount bins))
                 (real (length bins) * sum_list (map (\<lambda>b. logDay b * logDay b) bins)
                    - sum_list (map logDay bins) * sum_list (map logDay bins)))"
  using assms
  by (simp add: calculateOmoriParameters_def Let_def foldl_plus_id foldl_plus_pair
        foldl_plus [of "\<lambda>x. x * x" 0 "map logDay bins", simplified] comp_def)

lemma sum_sq_shift:
  "sum_list (map (\<lambda>x. (c * x - s) * (c * x - s)) xs)
     = c * c * sum_list (map (\<lambda>x. x * x) xs) - 2 * c * s * sum_list xs
       + real (length xs) * (s * s)"
  for c s :: real
  by (induction xs) (auto simp: algebra_simps)

lemma spread_pos:
  fixes xs :: "real list"
  assumes "u \<in> set xs" "v \<in> set xs" "u \<noteq> v"
  shows "real (length xs) * sum_list (map (\<lambda>x. x * x) xs) - sum_list xs * sum_list xs \<noteq> 0"
proof
  let ?n = "real (length xs)" and ?s = "sum_list xs"
  assume z: "?n * sum_list (map (\<lambda>x. x * x) xs) - ?s * ?s = 0"
  have n: "0 < ?n" using assms(1) by (cases xs) auto
  have "sum_list (map (\<lambda>x. (?n * x - ?s) * (?n * x - ?s)) xs)
      = ?n * (?n * sum_list (map (\<lambda>x. x * x) xs) - ?s * ?s)"
    unfolding sum_sq_shift by (simp add: algebra_simps)
  with z have "sum_list (map (\<lambda>x. (?n * x - ?s) * (?n * x - ?s)) xs) = 0"
    by simp
  moreover have "\<And>y. y \<in> set (map (\<lambda>x. (?n * x - ?s) * (?n * x - ?s)) xs) \<Longrightarrow> 0 \<le> y"
    by auto
  ultimately have "\<forall>y \<in> set (map (\<lambda>x. (?n * x - ?s) * (?n * x - ?s)) xs). y = 0"
    by (simp only: sum_list_nonneg_eq_0_iff)
  with assms(1,2) have "?n * u - ?s = 0" "?n * v - ?s = 0"
    by auto
  then have "?n * u = ?n * v" by simp
  with n have "u = v" by simp
  with assms(3) show False by simp
qed

lemma series_logDay:
  "map logDay (omori_series K c p days) = map (\<lambda>t. log 10 (real_of_int t + 1)) days"
  by (simp add: omori_series_def omori_point_def comp_def)

lemma series_logCount:
  assumes "0 < K" and "\<forall>t \<in> set days. 0 < real_of_int t + c"
  shows "map logCount (omori_series K c p days)
       = map (\<lambda>t. log 10 K - p * log 10 (real_of_int t + c)) days"
proof -
  have "log 10 (K / (real_of_int t + c) powr p) = log 10 K - p * log 10 (real_of_int t + c)"
    if "t \<in> set days" for t
  proof -
    from that assms(2) have "0 < real_of_int t + c" by blast
    then have "(real_of_int t + c) powr p \<noteq> 0" by simp
    with assms(1) show ?thesis
      by (simp add: log_divide log_powr)
  qed
  then show ?thesis
    by (simp add: omori_series_def omori_point_def comp_def)
qed


lemma sum_affine:
  "sum_list (map (\<lambda>t. L - p * x t) ts) = real (length ts) * L - p * sum_list (map x ts)"
  for L p :: real
  by (induction ts) (auto simp: algebra_simps)

lemma sum_affine_weighted:
  "sum_list (map (\<lambda>t. x t * (L - p * x t)) ts)
     = L * sum_list (map x ts) - p * sum_list (map (\<lambda>t. x t * x t) ts)"
  for L p :: real
  by (induction ts) (auto simp: algebra_simps)

lemma series_first_count:
  assumes "0 < K" and "days \<noteq> []" and "\<forall>t \<in> set days. 0 < real_of_int t + c"
  shows "first_count (omori_series K c p days) = count (hd (omori_series K c p days))"
proof -
  from assms(2) obtain t rest where d: "days = t # rest" by (cases days) auto
  with assms(3) have "0 < real_of_int t + c" by simp
  then have "0 < (real_of_int t + c) powr p" by simp
  with assms(1) have "K / (real_of_int t + c) powr p \<noteq> 0" by simp
  with d show ?thesis
    by (simp add: first_count_def omori_series_def omori_point_def)
qed

lemma omori_exact:
  assumes "0 < K" and "3 \<le> length days" and "distinct days" and "\<forall>t \<in> set days. 0 \<le> t"
  shows "fst (calculateOmoriParameters (omori_series K 1 p days)) = Some p"
proof -
  let ?x = "\<lambda>t. log 10 (real_of_int t + 1)"
  let ?bins = "omori_series K 1 p days"
  let ?n = "real (length days)"
  let ?X = "sum_list (map ?x days)"
  let ?Q = "sum_list (map (\<lambda>t. ?x t * ?x t) days)"
  let ?L = "log 10 K"
  have pos: "\<forall>t \<in> set days. 0 < real_of_int t + 1"
    using assms(4) by auto
  have len: "length ?bins = length days" by (simp add: omori_series_def)
  have lx: "map logDay ?bins = map ?x days" by (rule series_logDay)
  have ly: "map logCount ?bins = map (\<lambda>t. ?L - p * ?x t) days"
    using series_logCount [OF assms(1) pos] .
  have sx: "sum_list (map logDay ?bins) = ?X" by (simp only: lx)
  have sy: "sum_list (map logCount ?bins) = ?n * ?L - p * ?X"
    by (simp only: ly sum_affine)
  have "map (\<lambda>b. logDay b * logCount b) ?bins
      = map (\<lambda>(u, v). u * v) (zip (map logDay ?bins) (map logCount ?bins))"
    by (simp add: zip_map_map zip_same_conv_map comp_def)
  also have "\<dots> = map (\<lambda>(u, v). u * v) (zip (map ?x days) (map (\<lambda>t. ?L - p * ?x t) days))"
    by (simp only: lx ly)
  also have "\<dots> = map (\<lambda>t. ?x t * (?L - p * ?x t)) days"
    by (simp add: zip_map_map zip_same_conv_map comp_def)
  finally have sxy: "sum_list (map (\<lambda>b. logDay b * logCount b) ?bins) = ?L * ?X - p * ?Q"
    by (simp only: sum_affine_weighted)
  have "map (\<lambda>b. logDay b * logDay b) ?bins
      = map (\<lambda>(u, v). u * v) (zip (map logDay ?bins) (map logDay ?bins))"
    by (simp add: zip_map_map zip_same_conv_map comp_def)
  also have "\<dots> = map (\<lambda>t. ?x t * ?x t) days"
    by (simp add: lx zip_map_map zip_same_conv_map comp_def)
  finally have sxx: "sum_list (map (\<lambda>b. logDay b * logDay b) ?bins) = ?Q"
    by simp
  from assms(2) obtain t1 t2 rest where d: "days = t1 # t2 # rest"
    by (cases days; cases "tl days") auto
  with assms(3) have ne: "t1 \<noteq> t2" by auto
  have "0 < real_of_int t1 + 1" "0 < real_of_int t2 + 1" using pos d by auto
  with ne have "?x t1 \<noteq> ?x t2"
    using inj_onD [OF log_inj [of 10], of "real_of_int t1 + 1" "real_of_int t2 + 1"] by auto
  moreover have "?x t1 \<in> set (map ?x days)" "?x t2 \<in> set (map ?x days)"
    using d by auto
  ultimately have "real (length (map ?x days)) * sum_list (map (\<lambda>x. x * x) (map ?x days))
      - sum_list (map ?x days) * sum_list (map ?x days) \<noteq> 0"
    by (intro spread_pos [of "?x t1" _ "?x t2"])
  then have D: "?n * ?Q - ?X * ?X \<noteq> 0"
    by (simp add: comp_def)
  have N: "?n * (?L * ?X - p * ?Q) - ?X * (?n * ?L - p * ?X) = - p * (?n * ?Q - ?X * ?X)"
    by (simp add: algebra_simps)
  have "3 \<le> length ?bins" using assms(2) len by simp
  from omori_p_sums [OF this]
  have "fst (calculateOmoriParameters ?bins)
      = map_option uminus (js_div (- p * (?n * ?Q - ?X * ?X)) (?n * ?Q - ?X * ?X))"
    by (simp only: len sx sy sxy sxx N)
  also have "\<dots> = Some p"
    using D by (simp add: js_div_def)
  finally show ?thesis .
qed

lemma omori_c: "fst (snd (calculateOmoriParameters bins)) = 0.5"
  by (simp add: calculateOmoriParameters_def Let_def)

lemma omori_K: "snd (snd (calculateOmoriParameters bins)) = first_count bins"
  by (simp add: calculateOmoriParameters_def Let_def)

text \<open>
  C5, as the code has it. The estimator regresses \<open>logCount\<close> on
  \<open>logDay = log10 (day + 1)\<close> (line 382), so what it inverts is \<open>n(t) = K / (t + 1)\<^sup>p\<close>:
  for bins of at least three distinct days, none negative, with exactly these counts it
  returns \<open>p\<close> itself (in exact arithmetic), \<open>c = 0.5\<close>, and as \<open>K\<close> the count of the
  first bin. The \<open>K\<close> it returns is the count of the first bin for the counts
  \<open>K / (t + 0.5)\<^sup>p\<close> as well.
\<close>

theorem omori_round_trip:
  assumes "0 < K" and "3 \<le> length days" and "distinct days" and "\<forall>t \<in> set days. 0 \<le> t"
  shows "calculateOmoriParameters (omori_series K 1 p days)
           = (Some p, 0.5, count (hd (omori_series K 1 p days)))
       \<and> snd (snd (calculateOmoriParameters (omori_series K 0.5 p days)))
           = count (hd (omori_series K 0.5 p days))"
proof -
  have ne: "days \<noteq> []" using assms(2) by auto
  have p1: "\<forall>t \<in> set days. 0 < real_of_int t + 1" using assms(4) by auto
  have p2: "\<forall>t \<in> set days. 0 < real_of_int t + 0.5" using assms(4) by auto
  have "fst (calculateOmoriParameters (omori_series K 1 p days)) = Some p"
    using assms by (rule omori_exact)
  moreover have "fst (snd (calculateOmoriParameters (omori_series K 1 p days))) = 0.5"
    by (rule omori_c)
  moreover have "snd (snd (calculateOmoriParameters (omori_series K 1 p days)))
      = count (hd (omori_series K 1 p days))"
    by (simp only: omori_K series_first_count [OF assms(1) ne p1])
  ultimately have "calculateOmoriParameters (omori_series K 1 p days)
           = (Some p, 0.5, count (hd (omori_series K 1 p days)))"
    by (metis prod.collapse)
  moreover have "snd (snd (calculateOmoriParameters (omori_series K 0.5 p days)))
           = count (hd (omori_series K 0.5 p days))"
    by (simp only: omori_K series_first_count [OF assms(1) ne p2])
  ultimately show ?thesis by simp
qed

theorem omori_round_trip_witness:
  "0 < (1::real) \<and> 3 \<le> length [0, 1, 2 :: int] \<and> distinct [0, 1, 2 :: int]
   \<and> calculateOmoriParameters (omori_series 1 1 2 [0, 1, 2])
         = (Some 2, 0.5, count (hd (omori_series 1 1 2 [0, 1, 2])))
   \<and> snd (snd (calculateOmoriParameters (omori_series 1 0.5 2 [0, 1, 2])))
         = count (hd (omori_series 1 0.5 2 [0, 1, 2]))"
proof -
  have k: "0 < (1::real)" by simp
  have l: "3 \<le> length [0, 1, 2 :: int]" by simp
  have d: "distinct [0, 1, 2 :: int]" by simp
  have h: "\<forall>t \<in> set [0, 1, 2 :: int]. 0 \<le> t" by simp
  from omori_round_trip [OF k l d h, of 2] k l d show ?thesis
    by blast
qed

lemma log10_2_bounds: "3 / 10 \<le> log 10 2" "log 10 2 \<le> 302 / 1000"
proof -
  have e1: "log 10 1024 = 10 * log 10 2"
    using log_nat_power [of 2 10 10] by simp
  have e2: "log 10 1000 = 3"
    using log_nat_power [of 10 10 3] by simp
  have "log 10 1000 \<le> log 10 1024"
    by (subst log_le_cancel_iff) simp_all
  with e1 e2 show "3 / 10 \<le> log 10 2" by simp
  have e3: "log 10 (2 ^ 93) = 93 * log 10 2"
    using log_nat_power [of 2 10 93] by simp
  have e4: "log 10 (10 ^ 28) = 28"
    using log_nat_power [of 10 10 28] by simp
  have "log 10 (2 ^ 93) \<le> log 10 (10 ^ 28)"
    by (subst log_le_cancel_iff) simp_all
  with e3 e4 show "log 10 2 \<le> 302 / 1000" by simp
qed

lemma log10_3_bounds: "476 / 1000 \<le> log 10 3" "log 10 3 \<le> 478 / 1000"
proof -
  have e1: "log 10 (3 ^ 21) = 21 * log 10 3"
    using log_nat_power [of 3 10 21] by simp
  have e2: "log 10 (10 ^ 10) = 10"
    using log_nat_power [of 10 10 10] by simp
  have "log 10 (10 ^ 10) \<le> log 10 (3 ^ 21)"
    by (subst log_le_cancel_iff) simp_all
  with e1 e2 show "476 / 1000 \<le> log 10 3" by simp
  have e3: "log 10 (3 ^ 44) = 44 * log 10 3"
    using log_nat_power [of 3 10 44] by simp
  have e4: "log 10 (10 ^ 21) = 21"
    using log_nat_power [of 10 10 21] by simp
  have "log 10 (3 ^ 44) \<le> log 10 (10 ^ 21)"
    by (subst log_le_cancel_iff) simp_all
  with e3 e4 show "log 10 3 \<le> 478 / 1000" by simp
qed

lemma log10_halves:
  "log 10 (2 / 3) = log 10 2 - log 10 3"
  "log 10 (2 / 5) = 2 * log 10 2 - 1"
proof -
  show "log 10 (2 / 3) = log 10 2 - log 10 3" by (simp add: log_divide)
  have "log 10 5 = log 10 (10 / 2)" by simp
  also have "\<dots> = log 10 10 - log 10 2" by (simp only: log_divide) simp
  finally have five: "log 10 5 = 1 - log 10 2" by simp
  have "log 10 (2 / 5) = log 10 2 - log 10 5" by (simp add: log_divide)
  with five show "log 10 (2 / 5) = 2 * log 10 2 - 1" by simp
qed

lemma half_series:
  "omori_series 1 0.5 1 [0, 1, 2]
     = [omori_point 0 2, omori_point 1 (2 / 3), omori_point 2 (2 / 5)]"
  by (simp add: omori_series_def)

lemma half_series_p:
  "fst (calculateOmoriParameters (omori_series 1 0.5 1 [0, 1, 2]))
     = map_option uminus
         (js_div (3 * (log 10 2 * (log 10 2 - log 10 3) + log 10 3 * (2 * log 10 2 - 1))
                    - (log 10 2 + log 10 3) * (log 10 2 + (log 10 2 - log 10 3) + (2 * log 10 2 - 1)))
                 (3 * (log 10 2 * log 10 2 + log 10 3 * log 10 3)
                    - (log 10 2 + log 10 3) * (log 10 2 + log 10 3)))"
proof -
  have "3 \<le> length [omori_point 0 2, omori_point 1 (2 / 3), omori_point 2 (2 / 5)]"
    by simp
  from omori_p_sums [OF this] show ?thesis
    unfolding half_series by (simp add: omori_point_def log10_halves)
qed

text \<open>
  C5, as stated, fails. For \<open>K = 1\<close>, \<open>p = 1\<close> and the days 0, 1, 2 the counts
  \<open>1 / (t + 0.5)\<close> are 2, 2/3 and 2/5, and the estimator returns
  \<open>p = (a\<^sup>2 - b\<^sup>2 - a + 2 b) / (2 a\<^sup>2 + 2 b\<^sup>2 - 2 a b)\<close> with \<open>a = log10 2\<close> and
  \<open>b = log10 3\<close>, about 1.48: farther than \<open>1/4\<close> from the chosen \<open>p\<close>.
\<close>

theorem omori_half_day_offset:
  "\<not> num_within (fst (calculateOmoriParameters (omori_series 1 0.5 1 [0, 1, 2]))) 1 (1 / 4)"
proof -
  define a where "a = log 10 2"
  define b where "b = log 10 3"
  define A where "A = a * a"
  define B where "B = b * b"
  define C where "C = a * b"
  have a: "3 / 10 \<le> a" "a \<le> 302 / 1000" using log10_2_bounds by (simp_all add: a_def)
  have b: "476 / 1000 \<le> b" "b \<le> 478 / 1000" using log10_3_bounds by (simp_all add: b_def)
  have "a * a \<le> (302 / 1000) * (302 / 1000)"
    using a by (intro mult_mono) auto
  then have A1: "A \<le> 91204 / 1000000" by (simp add: A_def)
  have "b * b \<le> (478 / 1000) * (478 / 1000)"
    using b by (intro mult_mono) auto
  then have B1: "B \<le> 228484 / 1000000" by (simp add: B_def)
  have "(3 / 10) * (476 / 1000) \<le> a * b"
    using a b by (intro mult_mono) auto
  then have C0: "1428 / 10000 \<le> C" by (simp add: C_def)
  have "a * b \<le> (302 / 1000) * (478 / 1000)"
    using a b by (intro mult_mono) auto
  then have C1: "C \<le> 144356 / 1000000" by (simp add: C_def)
  have "(3 / 10) * (3 / 10) \<le> a * a"
    using a by (intro mult_mono) auto
  then have A0: "9 / 100 \<le> A" by (simp add: A_def)
  have "(476 / 1000) * (476 / 1000) \<le> b * b"
    using b by (intro mult_mono) auto
  then have B0: "226576 / 1000000 \<le> B" by (simp add: B_def)
  define N where "N = 3 * (a * (a - b) + b * (2 * a - 1)) - (a + b) * (a + (a - b) + (2 * a - 1))"
  define D where "D = 3 * (a * a + b * b) - (a + b) * (a + b)"
  have N: "N = - A + B + a - 2 * b"
    by (simp add: N_def A_def B_def algebra_simps)
  have Deq: "D = 2 * A + 2 * B - 2 * C"
    by (simp add: D_def A_def B_def C_def algebra_simps)
  have D: "0 < D" using A0 B0 C1 unfolding Deq by linarith
  have "6 * A + 14 * B - 10 * C + 4 * a - 8 * b < 0"
    using A1 B1 C0 a b by linarith
  then have "5 / 4 * D < - N"
    unfolding Deq N by simp
  then have "5 / 4 < - N / D"
    using D by (simp only: pos_less_divide_eq)
  then have far: "\<not> \<bar>- (N / D) - 1\<bar> \<le> 1 / 4"
    by linarith
  have "fst (calculateOmoriParameters (omori_series 1 0.5 1 [0, 1, 2]))
      = map_option uminus (js_div N D)"
    unfolding half_series_p N_def D_def a_def b_def ..
  also have "\<dots> = Some (- (N / D))"
    using D by (simp add: js_div_def)
  finally show ?thesis
    using far by (simp add: num_within_def)
qed

end
